theory Spec2Isabelle
  imports Complex_Main "HOL-Library.AList" "HOL-Library.Multiset" "HOL-Library.Log_Nat"
begin

section \<open>JavaScript objects and maps\<close>

text \<open>
  A plain JavaScript object with string keys (a \<^verbatim>\<open>Record<string, V>\<close>) and a
  \<^verbatim>\<open>Map<string, V>\<close> are association lists in insertion order: the list holds the
  own enumerable properties. Writing a property is \<^const>\<open>AList.update\<close> (the value is
  replaced where the key stands, a new key goes to the end), \<^verbatim>\<open>Map.get\<close> is
  \<^const>\<open>map_of\<close> and \<^verbatim>\<open>Map.delete\<close> is \<^const>\<open>AList.delete\<close>. The objects are
  those that object literals and assignments build: an own property with the key
  \<^verbatim>\<open>__proto__\<close>, which only a computed key or \<^verbatim>\<open>JSON.parse\<close> creates, has no
  counterpart in the lists.
\<close>

type_synonym 'v js_object = "(string \<times> 'v) list"

text \<open>
  A value that a \<^verbatim>\<open>throw\<close> statement or a failing built-in operation raises: an
  \<^verbatim>\<open>Error\<close> (a \<^verbatim>\<open>TypeError\<close> is one) with its message, or any other value.
\<close>

datatype js_thrown = ThrownError string | ThrownOther

text \<open>
  Reading a property of a plain object, \<^verbatim>\<open>obj[key]\<close>, looks at the own properties
  first and then follows the prototype chain to \<^verbatim>\<open>Object.prototype\<close>, whose members
  every plain object inherits: eleven functions and the accessor \<^verbatim>\<open>__proto__\<close>, which
  yields \<^verbatim>\<open>Object.prototype\<close> itself. The result of a read is the own value, an
  inherited member (named by the key that found it), or \<^verbatim>\<open>undefined\<close>. Every
  inherited member is an object, so it is truthy, it has no own enumerable property, and it
  has no method \<^verbatim>\<open>toLowerCase\<close>.
\<close>

definition Object_prototype_names :: "string list" where
  "Object_prototype_names =
     [''constructor'', ''__defineGetter__'', ''__defineSetter__'', ''hasOwnProperty'',
      ''__lookupGetter__'', ''__lookupSetter__'', ''isPrototypeOf'', ''propertyIsEnumerable'',
      ''toString'', ''valueOf'', ''__proto__'', ''toLocaleString'']"

datatype 'v js_lookup = OwnValue 'v | PrototypeMember string | NotFound

definition js_get :: "'v js_object \<Rightarrow> string \<Rightarrow> 'v js_lookup" where
  "js_get obj k =
     (case map_of obj k of
        Some v \<Rightarrow> OwnValue v
      | None \<Rightarrow> if k \<in> set Object_prototype_names then PrototypeMember k else NotFound)"

text \<open>
  \<^verbatim>\<open>String(member)\<close>, the property key that an inherited member turns into when it
  is used as one: \<^verbatim>\<open>Object.prototype\<close> gives \<^verbatim>\<open>[object Object]\<close>, and a built-in
  function gives its source text, in which \<^verbatim>\<open>Object.prototype.constructor\<close> has the
  name \<^verbatim>\<open>Object\<close>.
\<close>

definition prototype_member_string :: "string \<Rightarrow> string" where
  "prototype_member_string m =
     (if m = ''__proto__'' then ''[object Object]''
      else ''function '' @ (if m = ''constructor'' then ''Object'' else m)
             @ ''() { [native code] }'')"

text \<open>
  A property that may be missing from an object literal: the key is absent, or it is
  present with the value \<^verbatim>\<open>undefined\<close>, or it is present with a value. A spread
  \<^verbatim>\<open>{...defaults, ...options}\<close> copies every present key of \<^verbatim>\<open>options\<close>, also one
  whose value is \<^verbatim>\<open>undefined\<close>.
\<close>

datatype 'a js_optional = Absent | PresentUndefined | Present 'a

definition js_keys :: "'v js_object \<Rightarrow> string list" where
  "js_keys obj = remdups (map fst obj)"

text \<open>\<^verbatim>\<open>Object.assign(target, source)\<close>: for every own key of the source, in order,
  read the source's value and write it to the target.\<close>

definition object_assign :: "'v js_object \<Rightarrow> 'v js_object \<Rightarrow> 'v js_object" where
  "object_assign target source =
     fold (\<lambda>k t. case map_of source k of Some v \<Rightarrow> AList.update k v t | None \<Rightarrow> t)
       (js_keys source) target"

lemma map_of_object_assign_aux:
  "map_of (fold (\<lambda>k t. case map_of source k of Some v \<Rightarrow> AList.update k v t | None \<Rightarrow> t) ks target) x
     = (if x \<in> set ks \<and> map_of source x \<noteq> None then map_of source x else map_of target x)"
  by (induction ks arbitrary: target) (auto simp: update_conv' split: option.splits)

lemma map_of_object_assign:
  "map_of (object_assign target source) = map_of target ++ map_of source"
proof
  fix x
  have "x \<in> set (js_keys source) \<longleftrightarrow> map_of source x \<noteq> None"
    by (simp add: js_keys_def map_of_eq_None_iff)
  then show "map_of (object_assign target source) x = (map_of target ++ map_of source) x"
    unfolding object_assign_def map_of_object_assign_aux
    by (auto simp: map_add_def split: option.splits)
qed

lemma js_keys_Nil_iff [simp]: "js_keys obj = [] \<longleftrightarrow> obj = []"
  by (simp add: js_keys_def)

section \<open>Plugin registry (src/plugins/pluginRegistry.ts)\<close>

text \<open>
  \<^verbatim>\<open>HtmlPlugin\<close> of pluginTypes.ts. Optional fields are options; a priority is a
  finite number. Renderers and style modifiers are opaque values of types \<open>'r\<close> and
  \<open>'m\<close>; \<open>'t\<close> is the type of node transforms. The callbacks \<^verbatim>\<open>setup\<close> and \<^verbatim>\<open>cleanup\<close> (here \<open>setup_fn\<close> and
  \<open>cleanup_fn\<close>) are user functions without arguments: they act on a world \<open>'w\<close> outside
  the registry, and they return normally (\<open>Inr ()\<close>) or throw (\<open>Inl\<close> the thrown value);
  in both cases they leave a world behind.
\<close>

type_synonym 'w js_callback = "'w \<Rightarrow> (js_thrown + unit) \<times> 'w"

record ('r, 't, 'm, 'w) HtmlPlugin =
  name :: string
  priority :: "rat option"
  tagRenderers :: "'r js_object option"
  nodeTransforms :: "'t list option"
  styleModifiers :: "'m js_object option"
  setup_fn :: "'w js_callback option"
  cleanup_fn :: "'w js_callback option"

record RegisterPluginOptions =
  replace :: "bool option"

text \<open>The history of callback invocations and of writes to the plugin map, oldest first.\<close>

datatype registry_event =
    CalledSetup string
  | CalledCleanup string
  | StoredPlugin string
  | RemovedPlugin string

text \<open>
  \<^verbatim>\<open>PluginRegistryState\<close>, the closure variable \<^verbatim>\<open>state\<close> of
  \<^verbatim>\<open>createPluginRegistry\<close>, together with the world the callbacks act on and the
  history of events.
\<close>

record ('r, 't, 'm, 'w) PluginRegistryState =
  plugins :: "(string \<times> ('r, 't, 'm, 'w) HtmlPlugin) list"
  renderers :: "'r js_object"
  transforms :: "'t list"
  modifiers :: "'m js_object"
  world :: 'w
  events :: "registry_event list"

definition createPluginRegistry :: "'w \<Rightarrow> ('r, 't, 'm, 'w) PluginRegistryState" where
  "createPluginRegistry w =
     \<lparr>plugins = [], renderers = [], transforms = [], modifiers = [], world = w, events = []\<rparr>"

text \<open>\<^verbatim>\<open>a.priority ?? 100\<close>\<close>

definition effective_priority :: "('r, 't, 'm, 'w) HtmlPlugin \<Rightarrow> rat" where
  "effective_priority p = (case priority p of None \<Rightarrow> 100 | Some n \<Rightarrow> n)"

text \<open>\<^verbatim>\<open>Array.from(state.plugins.values()).sort(...)\<close>: the sort is stable, the
  comparator is the difference of the effective priorities.\<close>

definition sortedPlugins ::
  "('r, 't, 'm, 'w) PluginRegistryState \<Rightarrow> ('r, 't, 'm, 'w) HtmlPlugin list" where
  "sortedPlugins st = sort_key effective_priority (map snd (plugins st))"

fun merge_renderers :: "('r, 't, 'm, 'w) HtmlPlugin list \<Rightarrow> 'r js_object \<Rightarrow> 'r js_object" where
  "merge_renderers [] acc = acc"
| "merge_renderers (p # ps) acc =
     merge_renderers ps
       (case tagRenderers p of None \<Rightarrow> acc | Some rs \<Rightarrow> object_assign acc rs)"

fun collect_transforms :: "('r, 't, 'm, 'w) HtmlPlugin list \<Rightarrow> 't list \<Rightarrow> 't list" where
  "collect_transforms [] acc = acc"
| "collect_transforms (p # ps) acc =
     collect_transforms ps (case nodeTransforms p of None \<Rightarrow> acc | Some ts \<Rightarrow> acc @ ts)"

fun merge_modifiers :: "('r, 't, 'm, 'w) HtmlPlugin list \<Rightarrow> 'm js_object \<Rightarrow> 'm js_object" where
  "merge_modifiers [] acc = acc"
| "merge_modifiers (p # ps) acc =
     merge_modifiers ps
       (case styleModifiers p of None \<Rightarrow> acc | Some ms \<Rightarrow> object_assign acc ms)"

definition rebuildState ::
  "('r, 't, 'm, 'w) PluginRegistryState \<Rightarrow> ('r, 't, 'm, 'w) PluginRegistryState" where
  "rebuildState st =
     (let sorted = sortedPlugins st in
      st\<lparr>renderers := merge_renderers sorted [],
         transforms := collect_transforms sorted [],
         modifiers := merge_modifiers sorted []\<rparr>)"

text \<open>What a call of the registry throws: the error of \<^verbatim>\<open>register\<close> for a name
  that is taken, or whatever a callback of the plugin threw.\<close>

datatype registry_thrown = AlreadyRegistered string | CallbackThrew js_thrown

text \<open>\<^verbatim>\<open>plugin.setup?.()\<close> and \<^verbatim>\<open>plugin.cleanup?.()\<close>: the outcome of the call and
  the state after it.\<close>

definition call_setup ::
  "('r, 't, 'm, 'w) HtmlPlugin \<Rightarrow> ('r, 't, 'm, 'w) PluginRegistryState
     \<Rightarrow> (js_thrown + unit) \<times> ('r, 't, 'm, 'w) PluginRegistryState" where
  "call_setup p st =
     (case setup_fn p of
        None \<Rightarrow> (Inr (), st)
      | Some f \<Rightarrow>
          (case f (world st) of
             (outcome, w) \<Rightarrow>
               (outcome, st\<lparr>world := w, events := events st @ [CalledSetup (name p)]\<rparr>)))"

definition call_cleanup ::
  "('r, 't, 'm, 'w) HtmlPlugin \<Rightarrow> ('r, 't, 'm, 'w) PluginRegistryState
     \<Rightarrow> (js_thrown + unit) \<times> ('r, 't, 'm, 'w) PluginRegistryState" where
  "call_cleanup p st =
     (case cleanup_fn p of
        None \<Rightarrow> (Inr (), st)
      | Some f \<Rightarrow>
          (case f (world st) of
             (outcome, w) \<Rightarrow>
               (outcome, st\<lparr>world := w, events := events st @ [CalledCleanup (name p)]\<rparr>)))"

text \<open>\<^verbatim>\<open>state.plugins.set(plugin.name, plugin)\<close>\<close>

definition store_plugin ::
  "('r, 't, 'm, 'w) HtmlPlugin \<Rightarrow> ('r, 't, 'm, 'w) PluginRegistryState
     \<Rightarrow> ('r, 't, 'm, 'w) PluginRegistryState" where
  "store_plugin p st =
     st\<lparr>plugins := AList.update (name p) p (plugins st),
        events := events st @ [StoredPlugin (name p)]\<rparr>"

text \<open>
  \<^verbatim>\<open>register(plugin, options)\<close>. The result pairs the outcome (\<open>Inl\<close> is the thrown
  value) with the state the call leaves behind. An exception of the setup callback is not
  caught: it leaves \<^verbatim>\<open>register\<close> before the plugin is stored.
\<close>

definition register ::
  "('r, 't, 'm, 'w) HtmlPlugin \<Rightarrow> RegisterPluginOptions
     \<Rightarrow> ('r, 't, 'm, 'w) PluginRegistryState
     \<Rightarrow> (registry_thrown + unit) \<times> ('r, 't, 'm, 'w) PluginRegistryState" where
  "register plugin options st =
     (if name plugin \<in> fst ` set (plugins st) \<and> replace options \<noteq> Some True
      then (Inl (AlreadyRegistered (name plugin)), st)
      else
        (case call_setup plugin st of
           (Inl e, st1) \<Rightarrow> (Inl (CallbackThrew e), st1)
         | (Inr u, st1) \<Rightarrow> (Inr (), rebuildState (store_plugin plugin st1))))"

text \<open>\<^verbatim>\<open>unregister(name)\<close>; an exception of the cleanup callback leaves it before the
  plugin is deleted.\<close>

definition unregister ::
  "string \<Rightarrow> ('r, 't, 'm, 'w) PluginRegistryState
     \<Rightarrow> (registry_thrown + bool) \<times> ('r, 't, 'm, 'w) PluginRegistryState" where
  "unregister nm st =
     (case map_of (plugins st) nm of
        None \<Rightarrow> (Inr False, st)
      | Some plugin \<Rightarrow>
          (case call_cleanup plugin st of
             (Inl e, st1) \<Rightarrow> (Inl (CallbackThrew e), st1)
           | (Inr u, st1) \<Rightarrow>
               (Inr True,
                rebuildState
                  (st1\<lparr>plugins := AList.delete nm (plugins st1),
                       events := events st1 @ [RemovedPlugin nm]\<rparr>))))"

text \<open>\<^verbatim>\<open>getRenderer(tagName)\<close> is \<^verbatim>\<open>state.renderers[tagName]\<close>, a read of a plain
  object: for a tag without an own entry it finds what \<^verbatim>\<open>Object.prototype\<close> has under
  that name.\<close>

definition getRenderer :: "('r, 't, 'm, 'w) PluginRegistryState \<Rightarrow> string \<Rightarrow> 'r js_lookup" where
  "getRenderer st tagName = js_get (renderers st) tagName"

text \<open>
  \<^verbatim>\<open>applyTransforms(node, parent)\<close>. A node is a reference of type \<open>'n\<close>, whose
  equality is the identity of the object; \<^verbatim>\<open>null\<close> is \<open>None\<close>. A transform maps a
  node and the parent to a node or to \<^verbatim>\<open>null\<close>. The loop carries \<^verbatim>\<open>current\<close>
  and \<^verbatim>\<open>transformed\<close>; beside them it records every call it makes, as the pair of
  the argument and the result.
\<close>

type_synonym ('n, 'p) NodeTransform = "'n \<Rightarrow> 'p \<Rightarrow> 'n option"

fun transform_loop ::
  "('n, 'p) NodeTransform list \<Rightarrow> 'p \<Rightarrow> 'n option \<Rightarrow> bool \<Rightarrow> ('n \<times> 'n option) list
     \<Rightarrow> 'n option \<times> bool \<times> ('n \<times> 'n option) list" where
  "transform_loop [] parent current transformed calls = (current, transformed, calls)"
| "transform_loop (transform # rest) parent current transformed calls =
     (case current of
        None \<Rightarrow> (current, transformed, calls)
      | Some c \<Rightarrow>
          (let result = transform c parent in
           if result \<noteq> Some c
           then transform_loop rest parent result True (calls @ [(c, result)])
           else transform_loop rest parent current transformed (calls @ [(c, result)])))"

record 'n TransformResult =
  node :: "'n option"
  transformed :: bool

definition applyTransforms ::
  "('r, ('n, 'p) NodeTransform, 'm, 'w) PluginRegistryState \<Rightarrow> 'n \<Rightarrow> 'p \<Rightarrow> 'n TransformResult" where
  "applyTransforms st n parent =
     (case transform_loop (transforms st) parent (Some n) False [] of
        (current, changed, calls) \<Rightarrow> \<lparr>node = current, transformed = changed\<rparr>)"

definition transform_calls ::
  "('r, ('n, 'p) NodeTransform, 'm, 'w) PluginRegistryState \<Rightarrow> 'n \<Rightarrow> 'p \<Rightarrow> ('n \<times> 'n option) list" where
  "transform_calls st n parent =
     (case transform_loop (transforms st) parent (Some n) False [] of
        (current, changed, calls) \<Rightarrow> calls)"

subsection \<open>Auxiliary notions and examples\<close>

text \<open>The renderer a plugin supplies for a tag: \<^verbatim>\<open>plugin.tagRenderers?.[tag]\<close>.\<close>

definition supplies :: "('r, 't, 'm, 'w) HtmlPlugin \<Rightarrow> string \<Rightarrow> 'r option" where
  "supplies p t = (case tagRenderers p of None \<Rightarrow> None | Some rs \<Rightarrow> map_of rs t)"

text \<open>A list of calls is chained from \<open>cur\<close> when the first call's argument is \<open>cur\<close>
  and every later call's argument is the result of the call before it (so no call follows
  a result \<^verbatim>\<open>null\<close>).\<close>

fun chained :: "'n option \<Rightarrow> ('n \<times> 'n option) list \<Rightarrow> bool" where
  "chained cur [] = True"
| "chained cur ((i, out) # rest) = (cur = Some i \<and> chained out rest)"

text \<open>Two plugins with a renderer for the same tag, the registries after registering
  the first and then the second, and the registry after unregistering the first again. A
  third plugin has a setup callback that throws.\<close>

definition demo_plugin_a :: "(nat, (nat, unit) NodeTransform, nat, nat) HtmlPlugin" where
  "demo_plugin_a =
     \<lparr>name = ''a'', priority = Some 200, tagRenderers = Some [(''video'', 1)],
      nodeTransforms = Some [\<lambda>n p. Some (Suc n)], styleModifiers = None,
      setup_fn = Some (\<lambda>w. (Inr (), Suc w)), cleanup_fn = None\<rparr>"

definition demo_plugin_b :: "(nat, (nat, unit) NodeTransform, nat, nat) HtmlPlugin" where
  "demo_plugin_b =
     \<lparr>name = ''b'', priority = None, tagRenderers = Some [(''video'', 2)],
      nodeTransforms = Some [\<lambda>n p. None, \<lambda>n p. Some n], styleModifiers = None,
      setup_fn = None, cleanup_fn = None\<rparr>"


definition demo_registry_a :: "(nat, (nat, unit) NodeTransform, nat, nat) PluginRegistryState" where
  "demo_registry_a = snd (register demo_plugin_a \<lparr>replace = None\<rparr> (createPluginRegistry 0))"

definition demo_registry_ab :: "(nat, (nat, unit) NodeTransform, nat, nat) PluginRegistryState" where
  "demo_registry_ab = snd (register demo_plugin_b \<lparr>replace = None\<rparr> demo_registry_a)"

definition demo_registry_b :: "(nat, (nat, unit) NodeTransform, nat, nat) PluginRegistryState" where
  "demo_registry_b = snd (unregister ''a'' demo_registry_ab)"


text \<open>A registry whose third transform deletes the node.\<close>

definition demo_transform_registry :: "(nat, (nat, unit) NodeTransform, nat, nat) PluginRegistryState" where
  "demo_transform_registry =
     \<lparr>plugins = [], renderers = [],
      transforms = [\<lambda>n p. Some n, \<lambda>n p. Some (Suc n), \<lambda>n p. None, \<lambda>n p. Some 7],
      modifiers = [], world = 0, events = []\<rparr>"

subsection \<open>Properties of the merged tables\<close>

lemma map_of_merge_renderers:
  "map_of (merge_renderers ps acc) t =
     (case filter (\<lambda>q. supplies q t \<noteq> None) ps of
        [] \<Rightarrow> map_of acc t
      | q # qs \<Rightarrow> supplies (last (q # qs)) t)"
proof (induction ps arbitrary: acc)
  case Nil
  then show ?case by simp
next
  case (Cons p ps)
  show ?case
  proof (cases "supplies p t")
    case None
    then have "map_of (case tagRenderers p of None \<Rightarrow> acc | Some rs \<Rightarrow> object_assign acc rs) t = map_of acc t"
      by (auto simp: supplies_def map_of_object_assign map_add_def split: option.splits)
    with None show ?thesis by (simp add: Cons.IH split: list.splits)
  next
    case (Some r)
    then have "map_of (case tagRenderers p of None \<Rightarrow> acc | Some rs \<Rightarrow> object_assign acc rs) t = Some r"
      by (auto simp: supplies_def map_of_object_assign map_add_def split: option.splits)
    with Some show ?thesis by (auto simp: Cons.IH split: list.splits)
  qed
qed

lemma collect_transforms_concat:
  "collect_transforms ps acc =
     acc @ concat (map (\<lambda>q. case nodeTransforms q of None \<Rightarrow> [] | Some ts \<Rightarrow> ts) ps)"
  by (induction ps arbitrary: acc) (auto split: option.splits)

lemma sorted_key_last:
  "sorted (map f xs) \<Longrightarrow> x \<in> set xs \<Longrightarrow> f x \<le> f (last xs)"
  by (induction xs) (auto split: if_splits)

lemma sortedPlugins_rebuildState [simp]: "sortedPlugins (rebuildState st) = sortedPlugins st"
  by (simp add: sortedPlugins_def rebuildState_def Let_def)

lemma renderers_rebuildState:
  "renderers (rebuildState st) = merge_renderers (sortedPlugins st) []"
  by (simp add: rebuildState_def Let_def)

lemma transforms_rebuildState:
  "transforms (rebuildState st) = collect_transforms (sortedPlugins st) []"
  by (simp add: rebuildState_def Let_def)

lemma after_change_rebuilt:
  assumes "register p opts st = (Inr (), st') \<or> unregister nm st = (Inr True, st')"
  shows "\<exists>s. st' = rebuildState s"
  using assms
  by (auto simp: register_def unregister_def split: if_splits option.splits prod.splits sum.splits)

lemma call_setup_cases:
  "call_setup p st =
     (case setup_fn p of
        None \<Rightarrow> (Inr (), st)
      | Some f \<Rightarrow>
          (fst (f (world st)),
           st\<lparr>world := snd (f (world st)), events := events st @ [CalledSetup (name p)]\<rparr>))"
  by (simp add: call_setup_def split: option.splits prod.splits)

lemma plugins_call_setup [simp]: "plugins (snd (call_setup p st)) = plugins st"
  by (simp add: call_setup_cases split: option.splits)



lemma events_rebuildState [simp]: "events (rebuildState st) = events st"
  by (simp add: rebuildState_def Let_def)

lemma plugins_rebuildState [simp]: "plugins (rebuildState st) = plugins st"
  by (simp add: rebuildState_def Let_def)

lemma world_rebuildState [simp]: "world (rebuildState st) = world st"
  by (simp add: rebuildState_def Let_def)

lemma demo_registry_a_eq:
  "demo_registry_a =
     \<lparr>plugins = [(''a'', demo_plugin_a)], renderers = [(''video'', 1)],
      transforms = [\<lambda>n p. Some (Suc n)], modifiers = [], world = 1,
      events = [CalledSetup ''a'', StoredPlugin ''a'']\<rparr>"
  by (simp add: demo_registry_a_def register_def createPluginRegistry_def call_setup_def
        store_plugin_def rebuildState_def sortedPlugins_def demo_plugin_a_def
        object_assign_def js_keys_def)

lemma demo_registry_ab_eq:
  "demo_registry_ab =
     \<lparr>plugins = [(''a'', demo_plugin_a), (''b'', demo_plugin_b)], renderers = [(''video'', 1)],
      transforms = [\<lambda>n p. None, \<lambda>n p. Some n, \<lambda>n p. Some (Suc n)], modifiers = [], world = 1,
      events = [CalledSetup ''a'', StoredPlugin ''a'', StoredPlugin ''b'']\<rparr>"
  unfolding demo_registry_ab_def demo_registry_a_eq
  by (simp add: register_def call_setup_def effective_priority_def
        store_plugin_def rebuildState_def sortedPlugins_def demo_plugin_a_def demo_plugin_b_def
        object_assign_def js_keys_def)

lemma demo_registry_b_eq:
  "demo_registry_b =
     \<lparr>plugins = [(''b'', demo_plugin_b)], renderers = [(''video'', 2)],
      transforms = [\<lambda>n p. None, \<lambda>n p. Some n], modifiers = [], world = 1,
      events = [CalledSetup ''a'', StoredPlugin ''a'', StoredPlugin ''b'', RemovedPlugin ''a'']\<rparr>"
  unfolding demo_registry_b_def demo_registry_ab_eq
  by (simp add: unregister_def call_cleanup_def effective_priority_def
        rebuildState_def sortedPlugins_def demo_plugin_a_def demo_plugin_b_def
        object_assign_def js_keys_def)

text \<open>
  Claim C6. After a registration or an unregistration the merged tables are those of
  \<^const>\<open>rebuildState\<close>: the plugins are processed in ascending order of priority
  (absent priority counts as 100, plugins of equal priority keep their insertion order);
  for a tag that some plugin supplies, \<^verbatim>\<open>getRenderer(tag)\<close> is the renderer of the last
  plugin in that order that supplies it, so of two plugins that supply the tag with
  different priorities (and no third one does) the one with the higher priority number
  wins; for a tag that no plugin supplies it is what an empty object yields; the transform
  list is the concatenation of the plugins' transform lists in the same order, nothing
  removed.
\<close>

theorem rebuilt_tables:
  assumes "register p opts st = (Inr (), st') \<or> unregister nm st = (Inr True, st')"
  shows "sorted (map effective_priority (sortedPlugins st'))
       \<and> mset (sortedPlugins st') = mset (map snd (plugins st'))
       \<and> (\<forall>k. filter (\<lambda>q. effective_priority q = k) (sortedPlugins st')
                = filter (\<lambda>q. effective_priority q = k) (map snd (plugins st')))
       \<and> (\<forall>t. case filter (\<lambda>q. supplies q t \<noteq> None) (sortedPlugins st') of
               [] \<Rightarrow> getRenderer st' t
                      = (if t \<in> set Object_prototype_names then PrototypeMember t else NotFound)
             | q # qs \<Rightarrow> \<exists>r. supplies (last (q # qs)) t = Some r \<and> getRenderer st' t = OwnValue r)
       \<and> (\<forall>a b t. a \<in> set (map snd (plugins st')) \<and> b \<in> set (map snd (plugins st'))
              \<and> supplies a t \<noteq> None \<and> supplies b t \<noteq> None
              \<and> effective_priority a < effective_priority b
              \<and> (\<forall>c \<in> set (map snd (plugins st')). c \<noteq> a \<and> c \<noteq> b \<longrightarrow> supplies c t = None)
              \<longrightarrow> (\<exists>r. supplies b t = Some r \<and> getRenderer st' t = OwnValue r))
       \<and> transforms st' =
           concat (map (\<lambda>q. case nodeTransforms q of None \<Rightarrow> [] | Some ts \<Rightarrow> ts) (sortedPlugins st'))"
proof -
  from after_change_rebuilt[OF assms] obtain s where s: "st' = rebuildState s" by blast
  let ?sp = "sortedPlugins st'"
  have sorted: "sorted (map effective_priority ?sp)"
    by (simp add: sortedPlugins_def)
  have perm: "mset ?sp = mset (map snd (plugins st'))"
    by (simp add: sortedPlugins_def)
  have stable: "\<forall>k. filter (\<lambda>q. effective_priority q = k) ?sp
                = filter (\<lambda>q. effective_priority q = k) (map snd (plugins st'))"
    by (simp add: sortedPlugins_def sort_key_stable)
  have own: "map_of (renderers st') t =
            (case filter (\<lambda>q. supplies q t \<noteq> None) ?sp of
               [] \<Rightarrow> None
             | q # qs \<Rightarrow> supplies (last (q # qs)) t)" for t
    unfolding s renderers_rebuildState sortedPlugins_rebuildState
    by (simp add: map_of_merge_renderers split: list.splits)
  have rend: "case filter (\<lambda>q. supplies q t \<noteq> None) ?sp of
               [] \<Rightarrow> getRenderer st' t
                      = (if t \<in> set Object_prototype_names then PrototypeMember t else NotFound)
             | q # qs \<Rightarrow> \<exists>r. supplies (last (q # qs)) t = Some r \<and> getRenderer st' t = OwnValue r"
    for t
  proof (cases "filter (\<lambda>q. supplies q t \<noteq> None) ?sp")
    case Nil
    with own[of t] show ?thesis by (simp add: getRenderer_def js_get_def)
  next
    case (Cons q qs)
    have "last (q # qs) \<in> set (filter (\<lambda>q. supplies q t \<noteq> None) ?sp)"
      unfolding Cons by (rule last_in_set) simp
    then obtain r where r: "supplies (last (q # qs)) t = Some r" by auto
    with own[of t] Cons have "getRenderer st' t = OwnValue r"
      by (simp add: getRenderer_def js_get_def)
    with r Cons show ?thesis by simp
  qed
  have two: "\<exists>r. supplies b t = Some r \<and> getRenderer st' t = OwnValue r"
    if ab: "a \<in> set (map snd (plugins st'))" "b \<in> set (map snd (plugins st'))"
       "supplies a t \<noteq> None" "supplies b t \<noteq> None"
       "effective_priority a < effective_priority b"
       "\<forall>c \<in> set (map snd (plugins st')). c \<noteq> a \<and> c \<noteq> b \<longrightarrow> supplies c t = None"
    for a b t
  proof -
    let ?qs = "filter (\<lambda>q. supplies q t \<noteq> None) ?sp"
    have setsp: "set ?sp = set (map snd (plugins st'))"
      by (simp add: sortedPlugins_def)
    have bin: "b \<in> set ?qs" using ab setsp by simp
    then have ne: "?qs \<noteq> []" by (metis empty_iff empty_set)
    have sub: "set ?qs \<subseteq> {a, b}" using ab(6) setsp by auto
    have sq: "sorted (map effective_priority ?qs)"
      using sorted by (simp add: sorted_filter)
    have "effective_priority b \<le> effective_priority (last ?qs)"
      using sorted_key_last[OF sq bin] .
    moreover have "last ?qs \<in> {a, b}" using sub last_in_set[OF ne] by blast
    ultimately have "last ?qs = b" using ab(5) by auto
    with ne show ?thesis using rend[of t] by (auto split: list.splits)
  qed
  have tr: "transforms st' =
           concat (map (\<lambda>q. case nodeTransforms q of None \<Rightarrow> [] | Some ts \<Rightarrow> ts) ?sp)"
    unfolding s transforms_rebuildState sortedPlugins_rebuildState
    by (simp add: collect_transforms_concat)
  from sorted perm stable rend two tr show ?thesis by blast
qed

text \<open>The theorem at a registration (plugin \<open>b\<close>, priority 100, joins plugin \<open>a\<close>,
  priority 200: the renderer of \<open>a\<close> wins) and at an unregistration (without \<open>a\<close> the
  renderer of \<open>b\<close> is back, and the tag \<^verbatim>\<open>constructor\<close>, which no plugin supplies, finds
  the inherited member).\<close>

theorem rebuilt_tables_witness:
  "register demo_plugin_b \<lparr>replace = None\<rparr> demo_registry_a = (Inr (), demo_registry_ab)
   \<and> effective_priority demo_plugin_b < effective_priority demo_plugin_a
   \<and> supplies demo_plugin_a ''video'' = Some 1
   \<and> supplies demo_plugin_b ''video'' = Some 2
   \<and> getRenderer demo_registry_ab ''video'' = OwnValue 1
   \<and> sortedPlugins demo_registry_ab = [demo_plugin_b, demo_plugin_a]
   \<and> length (transforms demo_registry_ab) = 3
   \<and> unregister ''a'' demo_registry_ab = (Inr True, demo_registry_b)
   \<and> sortedPlugins demo_registry_b = [demo_plugin_b]
   \<and> getRenderer demo_registry_b ''video'' = OwnValue 2
   \<and> getRenderer demo_registry_b ''constructor'' = PrototypeMember ''constructor''
   \<and> getRenderer demo_registry_b ''audio'' = NotFound
   \<and> length (transforms demo_registry_b) = 2"
proof -
  have reg: "register demo_plugin_b \<lparr>replace = None\<rparr> demo_registry_a = (Inr (), demo_registry_ab)"
    by (simp add: demo_registry_ab_def register_def demo_registry_a_eq demo_plugin_b_def
          call_setup_def)
  have unreg: "unregister ''a'' demo_registry_ab = (Inr True, demo_registry_b)"
    by (simp add: demo_registry_b_def unregister_def demo_registry_ab_eq demo_plugin_a_def
          call_cleanup_def)
  have prio: "effective_priority demo_plugin_b < effective_priority demo_plugin_a"
    by (simp add: effective_priority_def demo_plugin_a_def demo_plugin_b_def)
  have sa: "supplies demo_plugin_a ''video'' = Some 1"
    by (simp add: supplies_def demo_plugin_a_def)
  have sb: "supplies demo_plugin_b ''video'' = Some 2"
    by (simp add: supplies_def demo_plugin_b_def)
  have sb': "supplies demo_plugin_b ''constructor'' = None" "supplies demo_plugin_b ''audio'' = None"
    by (simp_all add: supplies_def demo_plugin_b_def)
  have pl: "map snd (plugins demo_registry_ab) = [demo_plugin_a, demo_plugin_b]"
    by (simp add: demo_registry_ab_eq)
  have sp: "sortedPlugins demo_registry_ab = [demo_plugin_b, demo_plugin_a]"
    using prio by (simp add: sortedPlugins_def pl)
  have spb: "sortedPlugins demo_registry_b = [demo_plugin_b]"
    by (simp add: sortedPlugins_def demo_registry_b_eq)
  from rebuilt_tables [of demo_plugin_b "\<lparr>replace = None\<rparr>" demo_registry_a demo_registry_ab]
    reg
  have "(\<forall>a b t. a \<in> set (map snd (plugins demo_registry_ab)) \<and> b \<in> set (map snd (plugins demo_registry_ab))
              \<and> supplies a t \<noteq> None \<and> supplies b t \<noteq> None
              \<and> effective_priority a < effective_priority b
              \<and> (\<forall>c \<in> set (map snd (plugins demo_registry_ab)). c \<noteq> a \<and> c \<noteq> b \<longrightarrow> supplies c t = None)
              \<longrightarrow> (\<exists>r. supplies b t = Some r \<and> getRenderer demo_registry_ab t = OwnValue r))"
    and tr: "transforms demo_registry_ab =
           concat (map (\<lambda>q. case nodeTransforms q of None \<Rightarrow> [] | Some ts \<Rightarrow> ts) (sortedPlugins demo_registry_ab))"
    by blast+
  from this(1)[rule_format, of demo_plugin_b demo_plugin_a "''video''"]
  have g1: "getRenderer demo_registry_ab ''video'' = OwnValue 1"
    using prio sa sb by (simp add: pl)
  have l1: "length (transforms demo_registry_ab) = 3"
    unfolding tr sp by (simp add: demo_plugin_a_def demo_plugin_b_def)
  from rebuilt_tables [of _ _ demo_registry_ab demo_registry_b "''a''"] unreg
  have rb: "\<forall>t. case filter (\<lambda>q. supplies q t \<noteq> None) (sortedPlugins demo_registry_b) of
               [] \<Rightarrow> getRenderer demo_registry_b t
                      = (if t \<in> set Object_prototype_names then PrototypeMember t else NotFound)
             | q # qs \<Rightarrow> \<exists>r. supplies (last (q # qs)) t = Some r \<and> getRenderer demo_registry_b t = OwnValue r"
    and trb: "transforms demo_registry_b =
           concat (map (\<lambda>q. case nodeTransforms q of None \<Rightarrow> [] | Some ts \<Rightarrow> ts) (sortedPlugins demo_registry_b))"
    by blast+
  from rb[rule_format, of "''video''"] have g2: "getRenderer demo_registry_b ''video'' = OwnValue 2"
    by (simp add: spb sb)
  from rb[rule_format, of "''constructor''"]
  have g3: "getRenderer demo_registry_b ''constructor'' = PrototypeMember ''constructor''"
    by (simp add: spb sb' Object_prototype_names_def)
  from rb[rule_format, of "''audio''"]
  have g4: "getRenderer demo_registry_b ''audio'' = NotFound"
    by (simp add: spb sb' Object_prototype_names_def)
  have l2: "length (transforms demo_registry_b) = 2"
    unfolding trb spb by (simp add: demo_plugin_b_def)
  from reg unreg prio sa sb g1 sp l1 spb g2 g3 g4 l2 show ?thesis by simp
qed




subsection \<open>The transform chain\<close>

lemma fold_bind_None:
  "fold (\<lambda>t c. Option.bind c (\<lambda>x. t x p)) ts None = None"
  by (induction ts) auto

lemma transform_loop_calls:
  "transform_loop ts p cur tr calls = (r, tr', calls') \<Longrightarrow>
     \<exists>new. calls' = calls @ new
       \<and> chained cur new
       \<and> r = (if new = [] then cur else snd (last new))
       \<and> (tr' \<longleftrightarrow> tr \<or> (\<exists>c \<in> set new. snd c \<noteq> Some (fst c)))
       \<and> length new \<le> length ts
       \<and> (\<forall>k < length new. snd (new ! k) = (ts ! k) (fst (new ! k)) p)
       \<and> (length new < length ts \<longrightarrow> r = None)"
proof (induction ts arbitrary: cur tr calls)
  case Nil
  then show ?case by auto
next
  case (Cons t ts)
  show ?case
  proof (cases cur)
    case None
    with Cons.prems show ?thesis by auto
  next
    case (Some c)
    let ?res = "t c p"
    let ?tr1 = "tr \<or> ?res \<noteq> Some c"
    have step: "transform_loop ts p ?res ?tr1 (calls @ [(c, ?res)]) = (r, tr', calls')"
      using Cons.prems Some by (auto simp: Let_def split: if_splits)
    from Cons.IH[OF step] obtain new where new:
      "calls' = (calls @ [(c, ?res)]) @ new" "chained ?res new"
      "r = (if new = [] then ?res else snd (last new))"
      "tr' \<longleftrightarrow> ?tr1 \<or> (\<exists>c \<in> set new. snd c \<noteq> Some (fst c))"
      "length new \<le> length ts"
      "\<forall>k < length new. snd (new ! k) = (ts ! k) (fst (new ! k)) p"
      "length new < length ts \<longrightarrow> r = None"
      by blast
    let ?new = "(c, ?res) # new"
    have "calls' = calls @ ?new" using new(1) by simp
    moreover have "chained cur ?new" using new(2) Some by simp
    moreover have "r = (if ?new = [] then cur else snd (last ?new))" using new(3) by simp
    moreover have "tr' \<longleftrightarrow> tr \<or> (\<exists>c \<in> set ?new. snd c \<noteq> Some (fst c))"
      using new(4) by auto
    moreover have "length ?new \<le> length (t # ts)" using new(5) by simp
    moreover have "\<forall>k < length ?new. snd (?new ! k) = ((t # ts) ! k) (fst (?new ! k)) p"
      using new(6) by (auto simp: nth_Cons split: nat.splits)
    moreover have "length ?new < length (t # ts) \<longrightarrow> r = None" using new(7) by simp
    ultimately show ?thesis by blast
  qed
qed

lemma transform_loop_fold:
  "fst (transform_loop ts p cur tr calls) = fold (\<lambda>t c. Option.bind c (\<lambda>x. t x p)) ts cur"
proof (induction ts arbitrary: cur tr calls)
  case Nil
  then show ?case by simp
next
  case (Cons t ts)
  then show ?case
    by (cases cur) (auto simp: fold_bind_None Let_def)
qed

lemma chained_None_last:
  "chained cur new \<Longrightarrow> k < length new \<Longrightarrow> snd (new ! k) = None \<Longrightarrow> k = length new - 1"
proof (induction cur new arbitrary: k rule: chained.induct)
  case (1 cur)
  then show ?case by simp
next
  case (2 cur i out rest)
  show ?case
  proof (cases k)
    case 0
    with 2 have "out = None" by simp
    with 2(2) have "rest = []" by (cases rest) auto
    with 0 show ?thesis by simp
  next
    case (Suc j)
    with 2 have "j = length rest - 1" by auto
    with Suc 2(3) show ?thesis by auto
  qed
qed

text \<open>
  Claim C5. \<^verbatim>\<open>applyTransforms\<close> calls the registered transforms in registry order,
  each on the result of the one before; the node it returns is the last result (the input
  node when there are no transforms). A transform that returns \<^verbatim>\<open>null\<close> is the last
  one called and the returned node is \<^verbatim>\<open>null\<close>; when fewer transforms are called
  than are registered the returned node is \<^verbatim>\<open>null\<close>. The flag \<^verbatim>\<open>transformed\<close>
  holds exactly when some call returned a reference other than its argument; a
  \<^verbatim>\<open>null\<close> result always sets it, and when it is not set the input node is returned.
\<close>

theorem applyTransforms_threads:
  fixes st :: "('r, ('n, 'p) NodeTransform, 'm, 'w) PluginRegistryState"
  shows "(let r = applyTransforms st n parent;
           calls = transform_calls st n parent;
           ts = transforms st
       in length calls \<le> length ts
        \<and> (\<forall>k < length calls. snd (calls ! k) = (ts ! k) (fst (calls ! k)) parent)
        \<and> chained (Some n) calls
        \<and> node r = (if calls = [] then Some n else snd (last calls))
        \<and> node r = fold (\<lambda>t c. Option.bind c (\<lambda>x. t x parent)) ts (Some n)
        \<and> (\<forall>k < length calls. snd (calls ! k) = None \<longrightarrow> k = length calls - 1 \<and> node r = None)
        \<and> (length calls < length ts \<longrightarrow> node r = None)
        \<and> (transformed r \<longleftrightarrow> (\<exists>c \<in> set calls. snd c \<noteq> Some (fst c)))
        \<and> (node r = None \<longrightarrow> transformed r)
        \<and> (\<not> transformed r \<longrightarrow> node r = Some n))"
proof -
  obtain r tr calls where run: "transform_loop (transforms st) parent (Some n) False [] = (r, tr, calls)"
    by (cases "transform_loop (transforms st) parent (Some n) False []") auto
  from transform_loop_calls[OF run] have props:
    "chained (Some n) calls"
    "r = (if calls = [] then Some n else snd (last calls))"
    "tr \<longleftrightarrow> (\<exists>c \<in> set calls. snd c \<noteq> Some (fst c))"
    "length calls \<le> length (transforms st)"
    "\<forall>k < length calls. snd (calls ! k) = (transforms st ! k) (fst (calls ! k)) parent"
    "length calls < length (transforms st) \<longrightarrow> r = None"
    by auto
  have fold: "r = fold (\<lambda>t c. Option.bind c (\<lambda>x. t x parent)) (transforms st) (Some n)"
    using transform_loop_fold[of "transforms st" parent "Some n" False "[]"] run by simp
  have lastNone: "k = length calls - 1 \<and> r = None" if "k < length calls" "snd (calls ! k) = None" for k
  proof -
    have k: "k = length calls - 1" using chained_None_last[OF props(1) that] .
    moreover have "calls \<noteq> []" using that by auto
    ultimately show ?thesis using props(2) that(2) by (simp add: last_conv_nth)
  qed
  have nullchg: "r = None \<longrightarrow> tr"
  proof
    assume rn: "r = None"
    then have ne: "calls \<noteq> []" using props(2) by (auto split: if_splits)
    then have "snd (last calls) = None" using props(2) rn by simp
    moreover have "last calls \<in> set calls" using ne by simp
    ultimately show tr using props(3) by force
  qed
  have nochg: "\<not> tr \<longrightarrow> r = Some n"
  proof
    assume nt: "\<not> tr"
    then have all: "\<forall>c \<in> set calls. snd c = Some (fst c)" using props(3) by auto
    have "chained cur cs \<Longrightarrow> \<forall>c \<in> set cs. snd c = Some (fst c) \<Longrightarrow> cs \<noteq> [] \<Longrightarrow> snd (last cs) = cur" for cur cs
      by (induction cur cs rule: chained.induct) (auto split: if_splits)
    from this[OF props(1) all] show "r = Some n" using props(2) by auto
  qed
  have ap: "applyTransforms st n parent = \<lparr>node = r, transformed = tr\<rparr>"
    by (simp add: applyTransforms_def run)
  have tc: "transform_calls st n parent = calls"
    by (simp add: transform_calls_def run)
  show ?thesis
    unfolding Let_def ap tc
    using props fold lastNone nullchg nochg by simp
qed

theorem applyTransforms_threads_witness:
  "transform_calls demo_transform_registry 0 () = [(0, Some 0), (0, Some 1), (1, None)]
   \<and> node (applyTransforms demo_transform_registry 0 ()) = None
   \<and> transformed (applyTransforms demo_transform_registry 0 ())
   \<and> length (transform_calls demo_transform_registry 0 ()) < length (transforms demo_transform_registry)"
  using applyTransforms_threads [of demo_transform_registry 0 "()"]
  by (simp add: demo_transform_registry_def transform_calls_def applyTransforms_def Let_def)

section \<open>Content cache (src/renderer/NodeRenderer.tsx)\<close>

text \<open>
  \<^verbatim>\<open>class ContentCache<T>\<close>. The private \<^verbatim>\<open>Map\<close> is an association list in
  insertion order, an entry is the pair of the value and its timestamp. \<^verbatim>\<open>Date.now()\<close>
  is an argument of the operations that read the clock.
\<close>

record 'v ContentCache =
  cache :: "(string \<times> ('v \<times> int)) list"
  maxSize :: int
  maxAge :: int

definition new_ContentCache :: "int \<Rightarrow> int \<Rightarrow> 'v ContentCache" where
  "new_ContentCache size_limit maxAgeMs = \<lparr>cache = [], maxSize = size_limit, maxAge = maxAgeMs\<rparr>"

definition cache_size :: "'v ContentCache \<Rightarrow> nat" where
  "cache_size c = length (cache c)"

text \<open>\<^verbatim>\<open>get(key)\<close> at time \<open>now\<close>: the result and the cache afterwards.\<close>

definition cache_get :: "int \<Rightarrow> string \<Rightarrow> 'v ContentCache \<Rightarrow> 'v option \<times> 'v ContentCache" where
  "cache_get now key c =
     (case map_of (cache c) key of
        None \<Rightarrow> (None, c)
      | Some entry \<Rightarrow>
          if now - snd entry > maxAge c
          then (None, c\<lparr>cache := AList.delete key (cache c)\<rparr>)
          else (Some (fst entry), c\<lparr>cache := AList.delete key (cache c) @ [(key, entry)]\<rparr>))"

text \<open>\<^verbatim>\<open>this.cache.keys().next().value\<close>: the first key, \<^verbatim>\<open>undefined\<close> for an empty map.\<close>

definition oldest_key :: "'v ContentCache \<Rightarrow> string option" where
  "oldest_key c = (case cache c of [] \<Rightarrow> None | (k, e) # rest \<Rightarrow> Some k)"

text \<open>
  \<^verbatim>\<open>set(key, value)\<close> at time \<open>now\<close>. The guard \<^verbatim>\<open>if (oldestKey)\<close> tests the
  truthiness of a string or \<^verbatim>\<open>undefined\<close>: it fails for \<^verbatim>\<open>undefined\<close> and for the
  empty string.
\<close>

definition cache_set :: "int \<Rightarrow> string \<Rightarrow> 'v \<Rightarrow> 'v ContentCache \<Rightarrow> 'v ContentCache" where
  "cache_set now key v c =
     (let c1 =
        (if int (cache_size c) \<ge> maxSize c
         then (case oldest_key c of
                 None \<Rightarrow> c
               | Some oldestKey \<Rightarrow>
                   if oldestKey \<noteq> [] then c\<lparr>cache := AList.delete oldestKey (cache c)\<rparr> else c)
         else c)
      in c1\<lparr>cache := AList.update key (v, now) (cache c1)\<rparr>)"

subsection \<open>The size bound\<close>

lemma length_delete_present:
  "k \<in> fst ` set al \<Longrightarrow> length (AList.delete k al) < length al"
proof (induction al)
  case Nil
  then show ?case by simp
next
  case (Cons p al)
  show ?case
  proof (cases "fst p = k")
    case True
    have "length (AList.delete k al) \<le> length al" by (rule length_delete_le)
    with True show ?thesis by (cases p) (simp add: less_Suc_eq_le)
  next
    case False
    with Cons.prems have "k \<in> fst ` set al" by auto
    from Cons.IH[OF this] False show ?thesis by (cases p) simp
  qed
qed

lemma length_update_le: "length (AList.update k v al) \<le> Suc (length al)"
  by (induction al) auto

lemma cache_get_size:
  "cache_size (snd (cache_get now key c)) \<le> cache_size c"
proof (cases "map_of (cache c) key")
  case None
  then show ?thesis by (simp add: cache_get_def)
next
  case (Some entry)
  then have "key \<in> fst ` set (cache c)"
    by (metis domI dom_map_of_conv_image_fst)
  from length_delete_present[OF this] show ?thesis
    using Some by (auto simp: cache_get_def cache_size_def)
qed

text \<open>With a positive capacity and no empty key, \<^verbatim>\<open>set\<close> keeps the bound.\<close>

lemma cache_set_size:
  assumes "1 \<le> maxSize c" and "int (cache_size c) \<le> maxSize c"
    and "\<forall>k \<in> fst ` set (cache c). k \<noteq> []"
  shows "int (cache_size (cache_set now key v c)) \<le> maxSize c"
proof (cases "int (cache_size c) \<ge> maxSize c")
  case False
  have "length (AList.update key (v, now) (cache c)) \<le> Suc (length (cache c))"
    by (rule length_update_le)
  with False show ?thesis by (simp add: cache_set_def cache_size_def)
next
  case True
  with assms(1) obtain k e rest where c: "cache c = (k, e) # rest"
    by (cases "cache c") (auto simp: cache_size_def)
  with assms(3) have k: "k \<noteq> []" by simp
  have "k \<in> fst ` set (cache c)" using c by simp
  from length_delete_present[OF this]
  have "length (AList.delete k (cache c)) < length (cache c)" .
  moreover have "length (AList.update key (v, now) (AList.delete k (cache c)))
      \<le> Suc (length (AList.delete k (cache c)))"
    by (rule length_update_le)
  ultimately have "length (AList.update key (v, now) (AList.delete k (cache c))) \<le> length (cache c)"
    by linarith
  moreover have "cache (cache_set now key v c) = AList.update key (v, now) (AList.delete k (cache c))"
    using True c k by (simp add: cache_set_def oldest_key_def)
  ultimately show ?thesis using assms(2) by (simp add: cache_size_def)
qed

lemma cache_get_expired:
  "map_of (cache c) key = Some (v, t) \<Longrightarrow> now - t > maxAge c \<Longrightarrow>
     fst (cache_get now key c) = None \<and> map_of (cache (snd (cache_get now key c))) key = None"
  by (simp add: cache_get_def delete_conv')

lemma cache_get_fresh:
  "map_of (cache c) key = Some (v, t) \<Longrightarrow> \<not> now - t > maxAge c \<Longrightarrow>
     fst (cache_get now key c) = Some v
     \<and> cache (snd (cache_get now key c)) = AList.delete key (cache c) @ [(key, (v, t))]"
  by (simp add: cache_get_def)

text \<open>
  Claim C10. The cache is meant to hold at most \<^verbatim>\<open>maxSize\<close> entries. In a cache of
  capacity 1 that holds one entry under the empty key, \<^verbatim>\<open>set('a', ...)\<close> finds the cache
  full, reads the oldest key \<^verbatim>\<open>''\<close>, skips the eviction because the empty string is
  falsy, and inserts: the cache then holds two entries.
\<close>

theorem cache_exceeds_maxSize:
  "cache (cache_set 1 ''a'' (8::nat) (cache_set 0 [] 7 (new_ContentCache 1 60000)))
     = [([], (7, 0)), (''a'', (8, 1))]
   \<and> cache_size (cache_set 1 ''a'' (8::nat) (cache_set 0 [] 7 (new_ContentCache 1 60000))) = 2
   \<and> maxSize (cache_set 1 ''a'' (8::nat) (cache_set 0 [] 7 (new_ContentCache 1 60000))) = 1"
  by (simp add: cache_set_def new_ContentCache_def cache_size_def oldest_key_def)

section \<open>JavaScript strings and numbers\<close>

text \<open>
  A JavaScript string is a \<^typ>\<open>string\<close>, one \<^typ>\<open>char\<close> for each code unit; the model
  covers the code units below 256.

  A JavaScript number is an IEEE 754 double: \<^verbatim>\<open>NaN\<close>, an infinity, or a finite value,
  which is the rational number it stands for (the sign of a zero is not kept). Every
  arithmetic operation yields the double nearest to the exact result, a tie going to the
  neighbour with the even significand, and an infinity when that neighbour would be
  \<open>2\<^sup>1\<^sup>0\<^sup>2\<^sup>4\<close> or more.
\<close>

datatype js_number = NaN | PosInfinity | NegInfinity | Finite rat

definition pow2 :: "int \<Rightarrow> rat" where
  "pow2 e = (if 0 \<le> e then 2 ^ nat e else 1 / 2 ^ nat (- e))"

text \<open>For a positive \<open>q\<close>, the exponent \<open>e\<close> with \<open>2\<^sup>e \<le> q < 2\<^sup>e\<^sup>+\<^sup>1\<close>.\<close>

definition floor_log2 :: "rat \<Rightarrow> int" where
  "floor_log2 q =
     (case quotient_of q of
        (n, d) \<Rightarrow> (let e = bitlen n - bitlen d in if pow2 e \<le> q then e else e - 1))"

definition round_half_even :: "rat \<Rightarrow> int" where
  "round_half_even x =
     (let f = \<lfloor>x\<rfloor>; r = x - of_int f
      in if r < 1 / 2 then f else if 1 / 2 < r then f + 1 else if even f then f else f + 1)"

text \<open>The least power of two beyond the doubles, \<open>2\<^sup>1\<^sup>0\<^sup>2\<^sup>4\<close>.\<close>

definition double_overflow :: rat where
  "double_overflow = 2 ^ 1024"

lemma double_overflow_code [code]:
  "double_overflow =
     179769313486231590772930519078902473361797697894230657273430081157732675805500963132708477322407536021120113879871393357658789768814416622492847430639474124377767893424865485276302219601246094119453082952085005768838150682342462881473913110540827237163350510684586298239947245938479716304835356329624224137216"
  by (simp add: double_overflow_def)

text \<open>The double nearest to a rational: 53 bits of significand, the exponent of the last
  bit not below \<open>-1074\<close>.\<close>

definition round_to_double :: "rat \<Rightarrow> js_number" where
  "round_to_double q =
     (if q = 0 then Finite 0
      else
        (let a = \<bar>q\<bar>;
             e = max (floor_log2 a - 52) (- 1074);
             m = round_half_even (a / pow2 e);
             v = of_int m * pow2 e
         in if double_overflow \<le> v then (if q < 0 then NegInfinity else PosInfinity)
            else Finite (if q < 0 then - v else v)))"

text \<open>The product \<^verbatim>\<open>x * y\<close> of two numbers.\<close>

definition js_times :: "js_number \<Rightarrow> js_number \<Rightarrow> js_number" where
  "js_times x y =
     (case (x, y) of
        (Finite a, Finite b) \<Rightarrow> round_to_double (a * b)
      | (Finite a, PosInfinity) \<Rightarrow> if a = 0 then NaN else if 0 < a then PosInfinity else NegInfinity
      | (Finite a, NegInfinity) \<Rightarrow> if a = 0 then NaN else if 0 < a then NegInfinity else PosInfinity
      | (PosInfinity, Finite b) \<Rightarrow> if b = 0 then NaN else if 0 < b then PosInfinity else NegInfinity
      | (NegInfinity, Finite b) \<Rightarrow> if b = 0 then NaN else if 0 < b then NegInfinity else PosInfinity
      | (PosInfinity, PosInfinity) \<Rightarrow> PosInfinity
      | (NegInfinity, NegInfinity) \<Rightarrow> PosInfinity
      | (PosInfinity, NegInfinity) \<Rightarrow> NegInfinity
      | (NegInfinity, PosInfinity) \<Rightarrow> NegInfinity
      | _ \<Rightarrow> NaN)"

text \<open>The number that a decimal literal of the source text denotes, such as
  \<^verbatim>\<open>1.333\<close>.\<close>

definition js_literal :: "rat \<Rightarrow> js_number" where
  "js_literal q = round_to_double q"

text \<open>The white space of \<^verbatim>\<open>\s\<close> and of \<^verbatim>\<open>trim\<close>: tab, line feed, vertical tab, form
  feed, carriage return, space and no-break space.\<close>

definition is_space :: "char \<Rightarrow> bool" where
  "is_space c \<longleftrightarrow> c \<in> set [CHR 0x09, CHR 0x0A, CHR 0x0B, CHR 0x0C, CHR 0x0D, CHR 0x20, CHR 0xA0]"

definition trimStart :: "string \<Rightarrow> string" where
  "trimStart s = dropWhile is_space s"

definition trimEnd :: "string \<Rightarrow> string" where
  "trimEnd s = rev (dropWhile is_space (rev s))"

definition trim :: "string \<Rightarrow> string" where
  "trim s = trimEnd (trimStart s)"

text \<open>\<^verbatim>\<open>/^\s*$/.test(text)\<close>\<close>

definition isWhitespaceOnly :: "string \<Rightarrow> bool" where
  "isWhitespaceOnly text = list_all is_space text"

definition lower_char :: "char \<Rightarrow> char" where
  "lower_char c =
     (let n = (of_char c :: nat) in
      if (65 \<le> n \<and> n \<le> 90) \<or> (192 \<le> n \<and> n \<le> 222 \<and> n \<noteq> 215)
      then char_of (n + 32) else c)"

definition toLowerCase :: "string \<Rightarrow> string" where
  "toLowerCase s = map lower_char s"

text \<open>\<^verbatim>\<open>s.split(c)\<close> for a separator of one character: a string with \<open>n\<close>
  separators has \<open>n + 1\<close> segments.\<close>

fun split_on :: "char \<Rightarrow> string \<Rightarrow> string list" where
  "split_on c [] = [[]]"
| "split_on c (x # xs) =
     (if x = c then [] # split_on c xs
      else (case split_on c xs of [] \<Rightarrow> [[x]] | w # ws \<Rightarrow> (x # w) # ws))"

text \<open>\<^verbatim>\<open>s.split(/\s+/)\<close>: the separators are the maximal runs of white space.\<close>

function split_spaces :: "string \<Rightarrow> string list" where
  "split_spaces [] = [[]]"
| "split_spaces (x # xs) =
     (if is_space x then [] # split_spaces (dropWhile is_space xs)
      else (case split_spaces xs of [] \<Rightarrow> [[x]] | w # ws \<Rightarrow> (x # w) # ws))"
  by pat_completeness auto
termination
  by (relation "measure length") (auto simp: less_Suc_eq_le length_dropWhile_le)

text \<open>\<^verbatim>\<open>parts.join(sep)\<close>\<close>

fun join :: "string \<Rightarrow> string list \<Rightarrow> string" where
  "join sep [] = []"
| "join sep [w] = w"
| "join sep (w # ws) = w @ sep @ join sep ws"

text \<open>\<^verbatim>\<open>s.indexOf(c)\<close>, with \<open>None\<close> for \<open>-1\<close>.\<close>

fun indexOf :: "string \<Rightarrow> char \<Rightarrow> nat option" where
  "indexOf [] c = None"
| "indexOf (x # xs) c = (if x = c then Some 0 else map_option Suc (indexOf xs c))"

fun startsWith :: "string \<Rightarrow> string \<Rightarrow> bool" where
  "startsWith s [] = True"
| "startsWith [] (p # ps) = False"
| "startsWith (x # xs) (p # ps) = (x = p \<and> startsWith xs ps)"

text \<open>\<^verbatim>\<open>s.includes(p)\<close>\<close>

fun js_includes :: "string \<Rightarrow> string \<Rightarrow> bool" where
  "js_includes [] p = (p = [])"
| "js_includes (x # xs) p = (startsWith (x # xs) p \<or> js_includes xs p)"

definition is_digit :: "char \<Rightarrow> bool" where
  "is_digit c \<longleftrightarrow> c \<in> set ''0123456789''"

definition digit_value :: "char \<Rightarrow> nat" where
  "digit_value c = of_char c - 48"

text \<open>The value of a string of decimal digits.\<close>

definition digits_value :: "string \<Rightarrow> nat" where
  "digits_value ds = foldl (\<lambda>n d. 10 * n + digit_value d) 0 ds"

text \<open>
  \<^verbatim>\<open>parseFloat\<close> on a string of the shape \<^verbatim>\<open>-?[\d.]+\<close>, the only strings the style
  parser passes to it: the longest prefix that is a decimal literal counts (digits, then
  optionally a point and digits), and there is no value when that prefix has no digit.
  The result is the double nearest to the decimal number read.
\<close>

definition parseFloat :: "string \<Rightarrow> js_number" where
  "parseFloat s =
     (let negative = (s \<noteq> [] \<and> hd s = CHR ''-'');
          r = (if negative then tl s else s);
          ip = takeWhile is_digit r;
          r1 = dropWhile is_digit r;
          fp = (case r1 of [] \<Rightarrow> [] | c # t \<Rightarrow> if c = CHR ''.'' then takeWhile is_digit t else []);
          magnitude = of_nat (digits_value ip) + of_nat (digits_value fp) / 10 ^ length fp
      in if ip = [] \<and> fp = [] then NaN
         else round_to_double (if negative then - magnitude else magnitude))"

text \<open>The decimal digits of a natural number, for \<^verbatim>\<open>`html-node-${n}`\<close>.\<close>

fun decimal_fuel :: "nat \<Rightarrow> nat \<Rightarrow> string" where
  "decimal_fuel 0 n = []"
| "decimal_fuel (Suc f) n =
     (if n < 10 then [char_of (48 + n)]
      else decimal_fuel f (n div 10) @ [char_of (48 + n mod 10)])"

definition decimal :: "nat \<Rightarrow> string" where
  "decimal n = decimal_fuel (Suc n) n"

section \<open>Nodes and styles (src/parser/types.ts, src/styles/styleParser.ts)\<close>

text \<open>
  A style value is a number or a string. \<open>PercentString n\<close> is the string that the
  template literal \<^verbatim>\<open>`${n}%`\<close> yields for the number \<open>n\<close>. The style parser can
  also store a member of \<^verbatim>\<open>Object.prototype\<close> as a value: \<open>MemberValue m\<close> is the
  member with the name \<open>m\<close>. \<^verbatim>\<open>RNStyle\<close> is an object of style values.
\<close>

datatype style_value =
    NumberValue js_number
  | StringValue string
  | PercentString js_number
  | MemberValue string

type_synonym RNStyle = "style_value js_object"

text \<open>
  What a read of a table of styles can hand to the style resolver: a style object, or a
  member that the table inherits from \<^verbatim>\<open>Object.prototype\<close>. \<^verbatim>\<open>Object.keys\<close> and
  \<^verbatim>\<open>Object.assign\<close> see the own enumerable properties, of which an inherited member
  has none.
\<close>

datatype style_source = StyleObject RNStyle | InheritedMember string

definition own_properties :: "style_source \<Rightarrow> RNStyle" where
  "own_properties src = (case src of StyleObject s \<Rightarrow> s | InheritedMember m \<Rightarrow> [])"

text \<open>
  \<^verbatim>\<open>HtmlNode\<close>: the union of \<^verbatim>\<open>ElementNode\<close>, \<^verbatim>\<open>TextNode\<close> and
  \<^verbatim>\<open>CommentNode\<close>; the constructor stands for the field \<^verbatim>\<open>type\<close>. Every node is a
  JavaScript object: \<open>oid\<close> is the identity of that object (the number of its allocation),
  which \<^verbatim>\<open>key\<close>, a string that a copy of the object shares, is not. \<^verbatim>\<open>parent\<close>
  is a reference to an object and so holds the identity of the parent.
\<close>

datatype HtmlNode =
    ElementNode
      (oid: nat) (key: string) (tagName: string) (attributes: "string js_object")
      (classNames: "string list option") (children: "HtmlNode list") (parent: "nat option")
      (parsedStyles: "RNStyle option")
  | TextNode (oid: nat) (key: string) (content: string) (parent: "nat option")
  | CommentNode (oid: nat) (key: string) (content: string) (parent: "nat option")

definition isElementNode :: "HtmlNode \<Rightarrow> bool" where
  "isElementNode n = (case n of ElementNode _ _ _ _ _ _ _ _ \<Rightarrow> True | _ \<Rightarrow> False)"

definition isTextNode :: "HtmlNode \<Rightarrow> bool" where
  "isTextNode n = (case n of TextNode _ _ _ _ \<Rightarrow> True | _ \<Rightarrow> False)"

section \<open>Style parser (src/styles/styleParser.ts)\<close>

definition CSS_TO_RN_MAP :: "string js_object" where
  "CSS_TO_RN_MAP =
    [(''display'', ''display''), (''flex'', ''flex''),
     (''flex-direction'', ''flexDirection''), (''flex-wrap'', ''flexWrap''),
     (''flex-grow'', ''flexGrow''), (''flex-shrink'', ''flexShrink''),
     (''flex-basis'', ''flexBasis''), (''justify-content'', ''justifyContent''),
     (''align-items'', ''alignItems''), (''align-self'', ''alignSelf''),
     (''align-content'', ''alignContent''), (''width'', ''width''),
     (''height'', ''height''), (''min-width'', ''minWidth''),
     (''max-width'', ''maxWidth''), (''min-height'', ''minHeight''),
     (''max-height'', ''maxHeight''), (''position'', ''position''), (''top'', ''top''),
     (''right'', ''right''), (''bottom'', ''bottom''), (''left'', ''left''),
     (''z-index'', ''zIndex''), (''margin'', ''margin''), (''margin-top'', ''marginTop''),
     (''margin-right'', ''marginRight''), (''margin-bottom'', ''marginBottom''),
     (''margin-left'', ''marginLeft''), (''margin-horizontal'', ''marginHorizontal''),
     (''margin-vertical'', ''marginVertical''), (''padding'', ''padding''),
     (''padding-top'', ''paddingTop''), (''padding-right'', ''paddingRight''),
     (''padding-bottom'', ''paddingBottom''), (''padding-left'', ''paddingLeft''),
     (''padding-horizontal'', ''paddingHorizontal''),
     (''padding-vertical'', ''paddingVertical''), (''border'', ''border''),
     (''border-width'', ''borderWidth''), (''border-top-width'', ''borderTopWidth''),
     (''border-right-width'', ''borderRightWidth''),
     (''border-bottom-width'', ''borderBottomWidth''),
     (''border-left-width'', ''borderLeftWidth''), (''border-color'', ''borderColor''),
     (''border-top-color'', ''borderTopColor''),
     (''border-right-color'', ''borderRightColor''),
     (''border-bottom-color'', ''borderBottomColor''),
     (''border-left-color'', ''borderLeftColor''), (''border-radius'', ''borderRadius''),
     (''border-top-left-radius'', ''borderTopLeftRadius''),
     (''border-top-right-radius'', ''borderTopRightRadius''),
     (''border-bottom-left-radius'', ''borderBottomLeftRadius''),
     (''border-bottom-right-radius'', ''borderBottomRightRadius''),
     (''border-style'', ''borderStyle''), (''background-color'', ''backgroundColor''),
     (''background'', ''backgroundColor''), (''opacity'', ''opacity''),
     (''color'', ''color''), (''font-size'', ''fontSize''),
     (''font-family'', ''fontFamily''), (''font-weight'', ''fontWeight''),
     (''font-style'', ''fontStyle''), (''line-height'', ''lineHeight''),
     (''text-align'', ''textAlign''), (''text-decoration'', ''textDecorationLine''),
     (''text-decoration-line'', ''textDecorationLine''),
     (''text-decoration-style'', ''textDecorationStyle''),
     (''text-decoration-color'', ''textDecorationColor''),
     (''text-transform'', ''textTransform''), (''letter-spacing'', ''letterSpacing''),
     (''text-shadow'', ''textShadowColor''), (''word-spacing'', ''letterSpacing''),
     (''white-space'', ''whiteSpace''), (''text-overflow'', ''textOverflow''),
     (''box-shadow'', ''shadowColor''), (''shadow-color'', ''shadowColor''),
     (''shadow-offset'', ''shadowOffset''), (''shadow-opacity'', ''shadowOpacity''),
     (''shadow-radius'', ''shadowRadius''), (''overflow'', ''overflow''),
     (''aspect-ratio'', ''aspectRatio'')]"

definition FONT_WEIGHT_MAP :: "string js_object" where
  "FONT_WEIGHT_MAP =
    [(''normal'', ''normal''), (''bold'', ''bold''), (''100'', ''100''), (''200'', ''200''), (''300'', ''300''), (''400'', ''400''), (''500'', ''500''), (''600'', ''600''), (''700'', ''700''), (''800'', ''800''), (''900'', ''900''), (''lighter'', ''300''), (''bolder'', ''700'')]"

text \<open>\<^verbatim>\<open>trimmed.match(/^(-?[\d.]+)(px|em|rem|%|pt|vh|vw)?$/)\<close>: the two groups of the
  match. The characters of a unit are neither digits nor points, so the first group is an
  optional minus sign and the longest run of digits and points, and what follows it is
  nothing or a unit.\<close>

definition css_units :: "string list" where
  "css_units = [''px'', ''em'', ''rem'', ''%'', ''pt'', ''vh'', ''vw'']"

definition is_digit_or_dot :: "char \<Rightarrow> bool" where
  "is_digit_or_dot c \<longleftrightarrow> is_digit c \<or> c = CHR ''.''"

definition numericMatch :: "string \<Rightarrow> (string \<times> string option) option" where
  "numericMatch s =
     (let negative = (s \<noteq> [] \<and> hd s = CHR ''-'');
          r = (if negative then tl s else s);
          num = takeWhile is_digit_or_dot r;
          rest = dropWhile is_digit_or_dot r;
          group1 = (if negative then CHR ''-'' # num else num)
      in if num = [] then None
         else if rest = [] then Some (group1, None)
         else if rest \<in> set css_units then Some (group1, Some rest)
         else None)"

definition isColorProperty :: "string \<Rightarrow> bool" where
  "isColorProperty property =
     list_ex (\<lambda>p. js_includes (toLowerCase property) (toLowerCase p))
       [''color'', ''backgroundColor'', ''borderColor'', ''shadowColor'']"

text \<open>\<^verbatim>\<open>parseColor\<close> returns its argument on every path.\<close>

definition parseColor :: "string \<Rightarrow> string" where
  "parseColor v =
     (if startsWith v ''#'' \<or> startsWith v ''rgb'' \<or> startsWith v ''hsl'' then v else v)"

fun mapTextDecoration_loop :: "string list \<Rightarrow> string list \<Rightarrow> string" where
  "mapTextDecoration_loop [] mapped =
     (let joined = join '' '' mapped in if joined = [] then ''none'' else joined)"
| "mapTextDecoration_loop (dec # decorations) mapped =
     (if dec = ''underline'' then mapTextDecoration_loop decorations (mapped @ [''underline''])
      else if dec = ''line-through''
        then mapTextDecoration_loop decorations (mapped @ [''line-through''])
      else if dec = ''overline'' then mapTextDecoration_loop decorations mapped
      else if dec = ''none'' then ''none''
      else mapTextDecoration_loop decorations mapped)"

definition mapTextDecoration :: "string \<Rightarrow> string" where
  "mapTextDecoration v = mapTextDecoration_loop (split_on CHR '' '' v) []"

text \<open>\<^verbatim>\<open>switch (unit)\<close> of \<^verbatim>\<open>parseValue\<close>\<close>

definition convert_unit :: "js_number \<Rightarrow> string option \<Rightarrow> style_value" where
  "convert_unit num unit =
     (if unit = Some ''px'' then NumberValue num
      else if unit = Some ''em'' \<or> unit = Some ''rem'' then NumberValue (js_times num (Finite 16))
      else if unit = Some ''pt'' then NumberValue (js_times num (js_literal (1333 / 1000)))
      else if unit = Some ''%'' then PercentString num
      else if unit = Some ''vh'' \<or> unit = Some ''vw'' then PercentString num
      else NumberValue num)"

text \<open>
  The second argument of \<^verbatim>\<open>parseValue\<close> is what \<^verbatim>\<open>CSS_TO_RN_MAP[property]\<close> found:
  the name of a style attribute, or a member that the table inherits from
  \<^verbatim>\<open>Object.prototype\<close>.
\<close>

datatype rn_property = PropertyName string | PropertyMember string

text \<open>
  \<^verbatim>\<open>parseValue(value, property)\<close>; \<open>Inr None\<close> is \<^verbatim>\<open>undefined\<close>. The read
  \<^verbatim>\<open>FONT_WEIGHT_MAP[trimmed]\<close> is a read of a plain object. For an inherited member as
  property, \<^verbatim>\<open>isColorProperty\<close> calls \<^verbatim>\<open>property.toLowerCase()\<close>, which is not a
  function: a \<^verbatim>\<open>TypeError\<close> is thrown.
\<close>

definition parseValue :: "string \<Rightarrow> rn_property \<Rightarrow> js_thrown + style_value option" where
  "parseValue v property =
     (let trimmed = trim v in
      if trimmed \<in> set [''inherit'', ''initial'', ''unset''] then Inr None
      else if property = PropertyName ''fontWeight'' \<or> property = PropertyName ''font-weight''
        then Inr (Some
               (case js_get FONT_WEIGHT_MAP trimmed of
                  OwnValue w \<Rightarrow> StringValue (if w = [] then trimmed else w)
                | PrototypeMember m \<Rightarrow> MemberValue m
                | NotFound \<Rightarrow> StringValue trimmed))
      else
        (case numericMatch trimmed of
           Some (group1, unit) \<Rightarrow> Inr (Some (convert_unit (parseFloat group1) unit))
         | None \<Rightarrow>
             (case property of
                PropertyMember m \<Rightarrow> Inl (ThrownError ''property.toLowerCase is not a function'')
              | PropertyName p \<Rightarrow>
                  if isColorProperty p then Inr (Some (StringValue (parseColor trimmed)))
                  else if p = ''textDecorationLine'' \<or> p = ''text-decoration''
                    then Inr (Some (StringValue (mapTextDecoration trimmed)))
                  else Inr (Some (StringValue trimmed)))))"

text \<open>\<^verbatim>\<open>style[rnProperty] = parsedValue\<close>, after \<^verbatim>\<open>parseValue(value, rnProperty)\<close>;
  an exception of \<^verbatim>\<open>parseValue\<close> is not caught.\<close>

definition store_parsed ::
  "string \<Rightarrow> js_thrown + style_value option \<Rightarrow> RNStyle \<Rightarrow> js_thrown + RNStyle" where
  "store_parsed k parsed style =
     (case parsed of
        Inl e \<Rightarrow> Inl e
      | Inr None \<Rightarrow> Inr style
      | Inr (Some parsedValue) \<Rightarrow> Inr (AList.update k parsedValue style))"

text \<open>
  One round of the loop over the declarations of \<^verbatim>\<open>parseInlineStyle\<close>. The read
  \<^verbatim>\<open>CSS_TO_RN_MAP[property]\<close> is a read of a plain object: an inherited member is
  truthy, so the declaration is not skipped, and as a property key the member is its
  string.
\<close>

definition parse_declaration :: "string \<Rightarrow> RNStyle \<Rightarrow> js_thrown + RNStyle" where
  "parse_declaration declaration style =
     (case indexOf declaration CHR '':'' of
        None \<Rightarrow> Inr style
      | Some colonIndex \<Rightarrow>
          (let property = toLowerCase (trim (take colonIndex declaration));
               v = trim (drop (colonIndex + 1) declaration)
           in if property = [] \<or> v = [] then Inr style
              else
                (case js_get CSS_TO_RN_MAP property of
                   NotFound \<Rightarrow> Inr style
                 | OwnValue rnProperty \<Rightarrow>
                     if rnProperty = [] then Inr style
                     else store_parsed rnProperty (parseValue v (PropertyName rnProperty)) style
                 | PrototypeMember m \<Rightarrow>
                     store_parsed (prototype_member_string m)
                       (parseValue v (PropertyMember m)) style)))"

text \<open>The loop over the declarations: an exception ends it.\<close>

fun parse_declarations :: "string list \<Rightarrow> RNStyle \<Rightarrow> js_thrown + RNStyle" where
  "parse_declarations [] style = Inr style"
| "parse_declarations (declaration # rest) style =
     (case parse_declaration declaration style of
        Inl e \<Rightarrow> Inl e
      | Inr style' \<Rightarrow> parse_declarations rest style')"

definition parseInlineStyle :: "string option \<Rightarrow> js_thrown + RNStyle" where
  "parseInlineStyle cssString =
     (case cssString of
        None \<Rightarrow> Inr []
      | Some css \<Rightarrow>
          if css = [] \<or> trim css = [] then Inr []
          else parse_declarations (filter (\<lambda>d. d \<noteq> []) (split_on CHR '';'' css)) [])"

text \<open>\<^verbatim>\<open>mergeStyles(...styles)\<close>: \<^verbatim>\<open>Object.assign({}, ...styles.filter(Boolean))\<close>\<close>

definition mergeStyles :: "style_source option list \<Rightarrow> RNStyle" where
  "mergeStyles styles =
     fold (\<lambda>s acc. object_assign acc (own_properties s)) (List.map_filter id styles) []"

text \<open>A numeric literal in the sense of the first group of the pattern: an optional
  minus sign, then a non-empty run of digits and points.\<close>

definition numeric_literal :: "string \<Rightarrow> bool" where
  "numeric_literal lit \<longleftrightarrow>
     (let body = (if lit \<noteq> [] \<and> hd lit = CHR ''-'' then tl lit else lit)
      in body \<noteq> [] \<and> list_all is_digit_or_dot body)"

text \<open>What the proofs need of an entry of \<^const>\<open>CSS_TO_RN_MAP\<close>: the property name is
  trimmed, in lower case and free of separators.\<close>

definition table_entry_ok :: "string \<times> string \<Rightarrow> bool" where
  "table_entry_ok e \<longleftrightarrow>
     (case e of (p, r) \<Rightarrow>
        p \<noteq> [] \<and> \<not> is_space (hd p) \<and> \<not> is_space (last p)
        \<and> \<not> list_ex (\<lambda>c. c = CHR '';'' \<or> c = CHR '':'') p
        \<and> toLowerCase p = p \<and> r \<noteq> ''font-weight'' \<and> r \<noteq> [])"

text \<open>The style attribute that a declaration writes, if it gets as far as writing
  one.\<close>

definition declared_key :: "string \<Rightarrow> string option" where
  "declared_key declaration =
     (case indexOf declaration CHR '':'' of
        None \<Rightarrow> None
      | Some colonIndex \<Rightarrow>
          (case js_get CSS_TO_RN_MAP (toLowerCase (trim (take colonIndex declaration))) of
             NotFound \<Rightarrow> None
           | OwnValue rnProperty \<Rightarrow> Some rnProperty
           | PrototypeMember m \<Rightarrow> Some (prototype_member_string m)))"

subsection \<open>One declaration with a number and a unit\<close>

lemma split_on_no_sep: "c \<notin> set s \<Longrightarrow> split_on c s = [s]"
  by (induction s) auto

lemma indexOf_append:
  "c \<notin> set pre \<Longrightarrow> indexOf (pre @ c # rest) c = Some (length pre)"
  by (induction pre) auto

lemma dropWhile_pad:
  "list_all P sp \<Longrightarrow> s \<noteq> [] \<Longrightarrow> \<not> P (hd s) \<Longrightarrow> dropWhile P (sp @ s @ t) = s @ t"
  by (induction sp) (auto simp: neq_Nil_conv)

lemma trim_pad:
  assumes "list_all is_space sp1" "list_all is_space sp2"
    and "s \<noteq> []" "\<not> is_space (hd s)" "\<not> is_space (last s)"
  shows "trim (sp1 @ s @ sp2) = s"
proof -
  have 1: "trimStart (sp1 @ s @ sp2) = s @ sp2"
    unfolding trimStart_def using assms(1,3,4) by (rule dropWhile_pad)
  have "dropWhile is_space (rev sp2 @ rev s @ []) = rev s @ []"
    by (rule dropWhile_pad) (use assms in \<open>auto simp: list_all_iff hd_rev\<close>)
  then have 2: "trimEnd (s @ sp2) = s" by (simp add: trimEnd_def)
  show ?thesis by (simp add: trim_def 1 2)
qed

lemma unit_facts:
  "u \<in> set css_units \<Longrightarrow>
     u \<noteq> [] \<and> \<not> is_digit_or_dot (hd u) \<and> \<not> is_space (last u)
     \<and> CHR '';'' \<notin> set u \<and> CHR '':'' \<notin> set u"
  by (auto simp: css_units_def is_digit_or_dot_def is_digit_def is_space_def)

lemma digit_or_dot_facts:
  "is_digit_or_dot c \<Longrightarrow> \<not> is_space c \<and> c \<noteq> CHR '';'' \<and> c \<noteq> CHR '':'' \<and> c \<noteq> CHR ''-''"
  by (auto simp: is_digit_or_dot_def is_digit_def is_space_def)

lemma takeWhile_run:
  "list_all P xs \<Longrightarrow> ys \<noteq> [] \<Longrightarrow> \<not> P (hd ys) \<Longrightarrow> takeWhile P (xs @ ys) = xs"
  by (induction xs) (auto simp: neq_Nil_conv)

lemma dropWhile_run:
  "list_all P xs \<Longrightarrow> ys \<noteq> [] \<Longrightarrow> \<not> P (hd ys) \<Longrightarrow> dropWhile P (xs @ ys) = ys"
  by (induction xs) (auto simp: neq_Nil_conv)

lemma numericMatch_literal_unit:
  assumes "numeric_literal lit" "u \<in> set css_units"
  shows "numericMatch (lit @ u) = Some (lit, Some u)"
proof -
  let ?neg = "lit \<noteq> [] \<and> hd lit = CHR ''-''"
  let ?body = "if ?neg then tl lit else lit"
  from assms(1) have body: "?body \<noteq> []" "list_all is_digit_or_dot ?body"
    by (auto simp: numeric_literal_def Let_def)
  then have lit: "lit \<noteq> []" by auto
  from unit_facts[OF assms(2)] have u: "u \<noteq> []" "\<not> is_digit_or_dot (hd u)" by auto
  have neg: "((lit @ u) \<noteq> [] \<and> hd (lit @ u) = CHR ''-'') = ?neg" using lit by simp
  have r: "(if ?neg then tl (lit @ u) else lit @ u) = ?body @ u" using lit by simp
  have tw: "takeWhile is_digit_or_dot (?body @ u) = ?body"
    by (rule takeWhile_run[OF body(2) u])
  have dw: "dropWhile is_digit_or_dot (?body @ u) = u"
    by (rule dropWhile_run[OF body(2) u])
  have g1: "(if ?neg then CHR ''-'' # ?body else ?body) = lit"
    using lit by (cases lit) auto
  show ?thesis
    unfolding numericMatch_def Let_def neg r tw dw g1
    using body(1) u(1) assms(2) by simp
qed

lemma numeric_literal_facts:
  assumes "numeric_literal lit"
  shows "lit \<noteq> []" "\<not> is_space (hd lit)" "CHR '';'' \<notin> set lit" "CHR '':'' \<notin> set lit"
    "\<not> is_space (last lit)" "hd lit \<notin> set ''iu''"
proof -
  let ?neg = "lit \<noteq> [] \<and> hd lit = CHR ''-''"
  let ?body = "if ?neg then tl lit else lit"
  from assms have body: "?body \<noteq> []" "list_all is_digit_or_dot ?body"
    by (auto simp: numeric_literal_def Let_def)
  then show lit: "lit \<noteq> []" by auto
  have all: "\<forall>c \<in> set lit. c = CHR ''-'' \<or> is_digit_or_dot c"
  proof (cases ?neg)
    case True
    then have "lit = CHR ''-'' # ?body" by (cases lit) auto
    then have "set lit = insert (CHR ''-'') (set ?body)" by (metis list.simps(15))
    with body(2) show ?thesis by (auto simp: list_all_iff)
  next
    case False
    with body(2) show ?thesis by (auto simp: list_all_iff)
  qed
  have ok: "\<not> is_space c \<and> c \<noteq> CHR '';'' \<and> c \<noteq> CHR '':'' \<and> c \<notin> set ''iu''"
    if "c = CHR ''-'' \<or> is_digit_or_dot c" for c
    using that by (auto simp: is_digit_or_dot_def is_digit_def is_space_def)
  from all ok lit show "\<not> is_space (hd lit)" "CHR '';'' \<notin> set lit" "CHR '':'' \<notin> set lit"
      "hd lit \<notin> set ''iu''"
    by (metis hd_in_set)+
  have "last lit \<in> set ?body" using body(1) lit
    by (cases lit) (auto split: if_splits)
  with body(2) have "is_digit_or_dot (last lit)" by (simp add: list_all_iff)
  then show "\<not> is_space (last lit)" by (simp add: digit_or_dot_facts)
qed

lemma table_entries_ok: "list_all table_entry_ok CSS_TO_RN_MAP"
  by (simp add: CSS_TO_RN_MAP_def table_entry_ok_def toLowerCase_def is_space_def lower_char_def)

lemma table_distinct: "distinct (map fst CSS_TO_RN_MAP)"
  by (simp add: CSS_TO_RN_MAP_def)

lemma space_not_sep: "is_space c \<Longrightarrow> c \<noteq> CHR '';'' \<and> c \<noteq> CHR '':''"
  by (auto simp: is_space_def)

lemma table_entry_facts:
  assumes "(p, r) \<in> set CSS_TO_RN_MAP"
  shows "p \<noteq> []" "\<not> is_space (hd p)" "\<not> is_space (last p)"
    "CHR '';'' \<notin> set p" "CHR '':'' \<notin> set p" "toLowerCase p = p" "r \<noteq> ''font-weight''"
    "js_get CSS_TO_RN_MAP p = OwnValue r" "r \<noteq> []"
proof -
  from table_entries_ok assms have "table_entry_ok (p, r)"
    by (simp add: list_all_iff)
  then show "p \<noteq> []" "\<not> is_space (hd p)" "\<not> is_space (last p)"
    "CHR '';'' \<notin> set p" "CHR '':'' \<notin> set p" "toLowerCase p = p" "r \<noteq> ''font-weight''"
    "r \<noteq> []"
    by (auto simp: table_entry_ok_def list_ex_iff)
  have "map_of CSS_TO_RN_MAP p = Some r"
    using table_distinct assms by (rule map_of_is_SomeI)
  then show "js_get CSS_TO_RN_MAP p = OwnValue r" by (simp add: js_get_def)
qed

lemma parseValue_literal_unit:
  assumes "numeric_literal lit" "u \<in> set css_units"
    and "property \<noteq> ''fontWeight''" "property \<noteq> ''font-weight''"
  shows "parseValue (lit @ u) (PropertyName property)
           = Inr (Some (convert_unit (parseFloat lit) (Some u)))"
proof -
  note l = numeric_literal_facts[OF assms(1)]
  note uf = unit_facts[OF assms(2)]
  have "trim ([] @ (lit @ u) @ []) = lit @ u"
    by (rule trim_pad) (use l uf in auto)
  then have t: "trim (lit @ u) = lit @ u" by simp
  have "hd (lit @ u) \<notin> set ''iu''" using l by simp
  then have kw: "lit @ u \<notin> set [''inherit'', ''initial'', ''unset'']"
    by (cases "lit @ u") auto
  show ?thesis
    unfolding parseValue_def Let_def t
    using kw assms(3,4) numericMatch_literal_unit[OF assms(1,2)] by simp
qed

lemma parse_declaration_unit:
  assumes entry: "(p, r) \<in> set CSS_TO_RN_MAP" and nfw: "r \<noteq> ''fontWeight''"
    and lit: "numeric_literal lit" and u: "u \<in> set css_units"
    and sp: "list_all is_space sp1" "list_all is_space sp2" "list_all is_space sp3"
      "list_all is_space sp4"
  shows "parse_declaration (sp1 @ p @ sp2 @ '':'' @ sp3 @ lit @ u @ sp4) style
           = Inr (AList.update r (convert_unit (parseFloat lit) (Some u)) style)"
    and "CHR '';'' \<notin> set (sp1 @ p @ sp2 @ '':'' @ sp3 @ lit @ u @ sp4)"
    and "\<exists>c \<in> set (sp1 @ p @ sp2 @ '':'' @ sp3 @ lit @ u @ sp4). \<not> is_space c"
proof -
  note e = table_entry_facts[OF entry]
  note l = numeric_literal_facts[OF lit]
  note uf = unit_facts[OF u]
  let ?pre = "sp1 @ p @ sp2"
  let ?rest = "sp3 @ lit @ u @ sp4"
  let ?css = "?pre @ CHR '':'' # ?rest"
  have css: "sp1 @ p @ sp2 @ '':'' @ sp3 @ lit @ u @ sp4 = ?css" by simp
  have spc: "c \<noteq> CHR '';'' \<and> c \<noteq> CHR '':''" if "c \<in> set (sp1 @ sp2 @ sp3 @ sp4)" for c
  proof -
    from that sp have "is_space c" by (auto simp: list_all_iff)
    then show ?thesis by (rule space_not_sep)
  qed
  have nosemi: "CHR '';'' \<notin> set ?css"
  proof
    assume "CHR '';'' \<in> set ?css"
    then have "CHR '';'' \<in> set (sp1 @ sp2 @ sp3 @ sp4)"
      using e(4) l(3) uf by auto
    from spc[OF this] show False by simp
  qed
  then show "CHR '';'' \<notin> set (sp1 @ p @ sp2 @ '':'' @ sp3 @ lit @ u @ sp4)"
    unfolding css .
  have nocolon: "CHR '':'' \<notin> set ?pre"
  proof
    assume "CHR '':'' \<in> set ?pre"
    then have "CHR '':'' \<in> set (sp1 @ sp2 @ sp3 @ sp4)"
      using e(5) by auto
    from spc[OF this] show False by simp
  qed
  have "hd p \<in> set p" using e(1) by simp
  then have "hd p \<in> set (sp1 @ p @ sp2 @ '':'' @ sp3 @ lit @ u @ sp4)" by simp
  with e(2) show "\<exists>c \<in> set (sp1 @ p @ sp2 @ '':'' @ sp3 @ lit @ u @ sp4). \<not> is_space c"
    by blast
  have idx: "indexOf ?css CHR '':'' = Some (length ?pre)"
    using nocolon by (rule indexOf_append)
  have tk: "take (length ?pre) ?css = ?pre" by simp
  have dr: "drop (length ?pre + 1) ?css = ?rest" by simp
  have tp: "trim ?pre = p"
    by (rule trim_pad) (use sp e in auto)
  have "trim (sp3 @ (lit @ u) @ sp4) = lit @ u"
    by (rule trim_pad) (use sp l uf in auto)
  then have tv: "trim ?rest = lit @ u" by simp
  have pv: "parseValue (lit @ u) (PropertyName r)
      = Inr (Some (convert_unit (parseFloat lit) (Some u)))"
    using lit u nfw e(7) by (rule parseValue_literal_unit)
  have decl: "parse_declaration ?css style
      = Inr (AList.update r (convert_unit (parseFloat lit) (Some u)) style)"
    unfolding parse_declaration_def idx option.case Let_def tk dr tp tv e(6)
    using e(1) l(1) e(8) e(9) pv by (simp add: store_parsed_def)
  then show "parse_declaration (sp1 @ p @ sp2 @ '':'' @ sp3 @ lit @ u @ sp4) style
           = Inr (AList.update r (convert_unit (parseFloat lit) (Some u)) style)"
    unfolding css .
qed

subsection \<open>A declaration among others\<close>

lemma split_on_sep:
  "c \<notin> set a \<Longrightarrow> split_on c (a @ c # b) = a # split_on c b"
  by (induction a) auto

lemma split_on_join:
  assumes "\<forall>d \<in> set ds. CHR '';'' \<notin> set d" "ds \<noteq> []"
  shows "split_on CHR '';'' (join '';'' ds) = ds"
  using assms
proof (induction ds)
  case Nil
  then show ?case by simp
next
  case (Cons w ws)
  show ?case
  proof (cases ws)
    case Nil
    with Cons.prems show ?thesis by (simp add: split_on_no_sep)
  next
    case (Cons v vs)
    with Cons.IH Cons.prems have "split_on CHR '';'' (join '';'' ws) = ws" by simp
    moreover have "CHR '';'' \<notin> set w" using Cons.prems by simp
    ultimately show ?thesis using Cons by (simp add: split_on_sep)
  qed
qed

lemma trim_Nil_all_space:
  assumes "trim s = []"
  shows "list_all is_space s"
proof -
  from assms have "dropWhile is_space (rev (dropWhile is_space s)) = []"
    by (simp add: trim_def trimEnd_def trimStart_def)
  then have "\<forall>c \<in> set (dropWhile is_space s). is_space c"
    by (simp add: dropWhile_eq_Nil_conv)
  moreover have "dropWhile is_space s \<noteq> [] \<Longrightarrow> \<not> is_space (hd (dropWhile is_space s))"
    by (rule hd_dropWhile)
  ultimately have "dropWhile is_space s = []"
    by (metis hd_in_set)
  then show ?thesis by (simp add: dropWhile_eq_Nil_conv list_all_iff)
qed

lemma set_join: "d \<in> set ds \<Longrightarrow> set d \<subseteq> set (join sep ds)"
  by (induction sep ds rule: join.induct) auto

lemma parse_declarations_append:
  "parse_declarations (xs @ ys) style =
     (case parse_declarations xs style of
        Inl e \<Rightarrow> Inl e
      | Inr style' \<Rightarrow> parse_declarations ys style')"
  by (induction xs arbitrary: style) (auto split: sum.splits)

lemma store_parsed_other:
  "store_parsed k parsed style = Inr style' \<Longrightarrow> k \<noteq> k' \<Longrightarrow> map_of style' k' = map_of style k'"
  by (auto simp: store_parsed_def update_conv' split: sum.splits option.splits)

lemma parse_declaration_other:
  assumes "parse_declaration d style = Inr style'" "declared_key d \<noteq> Some k"
  shows "map_of style' k = map_of style k"
proof (cases "indexOf d CHR '':''")
  case None
  with assms show ?thesis by (simp add: parse_declaration_def)
next
  case (Some i)
  let ?p = "toLowerCase (trim (take i d))"
  show ?thesis
  proof (cases "js_get CSS_TO_RN_MAP ?p")
    case NotFound
    with Some assms show ?thesis
      by (auto simp: parse_declaration_def Let_def split: if_splits)
  next
    case (OwnValue r)
    with Some assms(2) have "r \<noteq> k" by (simp add: declared_key_def)
    with Some OwnValue assms(1) show ?thesis
      by (auto simp: parse_declaration_def Let_def split: if_splits dest: store_parsed_other)
  next
    case (PrototypeMember m)
    with Some assms(2) have "prototype_member_string m \<noteq> k" by (simp add: declared_key_def)
    with Some PrototypeMember assms(1) show ?thesis
      by (auto simp: parse_declaration_def Let_def split: if_splits dest: store_parsed_other)
  qed
qed

lemma parse_declarations_other:
  "parse_declarations ds style = Inr style' \<Longrightarrow> \<forall>d \<in> set ds. declared_key d \<noteq> Some k
     \<Longrightarrow> map_of style' k = map_of style k"
proof (induction ds arbitrary: style)
  case Nil
  then show ?case by simp
next
  case (Cons d ds)
  from Cons.prems(1) obtain s1 where s1: "parse_declaration d style = Inr s1"
    "parse_declarations ds s1 = Inr style'"
    by (auto split: sum.splits)
  have "map_of s1 k = map_of style k"
    using s1(1) Cons.prems(2) by (simp add: parse_declaration_other)
  moreover have "map_of style' k = map_of s1 k"
    using s1(2) Cons.prems(2) by (simp add: Cons.IH)
  ultimately show ?case by simp
qed

text \<open>
  Claim C8, amended. Take a style string of declarations separated by semicolons. One of
  them has a property that is a key of the property table other than \<^verbatim>\<open>font-weight\<close>
  and a value that is a numeric literal followed by a unit (white space around the
  property and the value is allowed); the declarations before it parse without an
  exception. Then \<^verbatim>\<open>parseInlineStyle\<close> writes the attribute of that property with the
  converted value and goes on with the declarations after it: for \<^verbatim>\<open>px\<close> the parsed
  number, for \<^verbatim>\<open>em\<close> and \<^verbatim>\<open>rem\<close> the number times 16, for \<^verbatim>\<open>pt\<close> the number
  times 1.333 (both products as doubles), and for \<^verbatim>\<open>%\<close>, \<^verbatim>\<open>vh\<close> and \<^verbatim>\<open>vw\<close> the
  string of the number followed by a percent sign. When \<^verbatim>\<open>parseInlineStyle\<close> returns
  and no later declaration writes the same attribute, the attribute has the converted
  value in the result; for a declaration that stands alone the result is that one
  attribute.
\<close>

theorem parseInlineStyle_unit_conversion:
  assumes "(p, r) \<in> set CSS_TO_RN_MAP" and "r \<noteq> ''fontWeight''"
    and "numeric_literal lit" and "u \<in> set css_units"
    and "list_all is_space sp1" "list_all is_space sp2" "list_all is_space sp3"
      "list_all is_space sp4"
    and "\<forall>d \<in> set (before @ after). CHR '';'' \<notin> set d"
    and "parse_declarations (filter (\<lambda>d. d \<noteq> []) before) [] = Inr style0"
  shows "(let declaration = sp1 @ p @ sp2 @ '':'' @ sp3 @ lit @ u @ sp4;
              css = join '';'' (before @ [declaration] @ after);
              number = parseFloat lit;
              v = (if u = ''px'' then NumberValue number
                   else if u = ''em'' \<or> u = ''rem'' then NumberValue (js_times number (Finite 16))
                   else if u = ''pt''
                     then NumberValue (js_times number (js_literal (1333 / 1000)))
                   else PercentString number)
          in parseInlineStyle (Some css)
               = parse_declarations (filter (\<lambda>d. d \<noteq> []) after) (AList.update r v style0)
           \<and> (\<forall>style. parseInlineStyle (Some css) = Inr style
                  \<and> (\<forall>d \<in> set after. declared_key d \<noteq> Some r)
                \<longrightarrow> map_of style r = Some v)
           \<and> (before = [] \<and> after = [] \<longrightarrow> parseInlineStyle (Some css) = Inr [(r, v)]))"
proof -
  let ?d = "sp1 @ p @ sp2 @ '':'' @ sp3 @ lit @ u @ sp4"
  let ?css = "join '';'' (before @ [?d] @ after)"
  let ?v = "convert_unit (parseFloat lit) (Some u)"
  let ?ne = "filter (\<lambda>d. d \<noteq> [])"
  have v: "?v =
      (if u = ''px'' then NumberValue (parseFloat lit)
       else if u = ''em'' \<or> u = ''rem'' then NumberValue (js_times (parseFloat lit) (Finite 16))
       else if u = ''pt'' then NumberValue (js_times (parseFloat lit) (js_literal (1333 / 1000)))
       else PercentString (parseFloat lit))"
    using assms(4) by (auto simp: convert_unit_def css_units_def)
  note d = parse_declaration_unit[OF assms(1-8)]
  have nosemi: "\<forall>x \<in> set (before @ [?d] @ after). CHR '';'' \<notin> set x"
    using assms(9) d(2) by auto
  have split: "split_on CHR '';'' ?css = before @ [?d] @ after"
    using nosemi by (rule split_on_join) simp
  from d(3) obtain c where c: "c \<in> set ?d" "\<not> is_space c" by blast
  have "set ?d \<subseteq> set ?css" by (rule set_join) simp
  with c have cin: "c \<in> set ?css" by blast
  then have ne: "?css \<noteq> []" by auto
  have tne: "trim ?css \<noteq> []"
  proof
    assume "trim ?css = []"
    then have "list_all is_space ?css" by (rule trim_Nil_all_space)
    with cin c(2) show False by (simp add: list_all_iff)
  qed
  have dne: "?d \<noteq> []" using c(1) by auto
  have fl: "?ne (before @ [?d] @ after) = ?ne before @ ?d # ?ne after"
    using dne by simp
  have run: "parseInlineStyle (Some ?css) = parse_declarations (?ne after) (AList.update r ?v style0)"
    using ne tne
    by (simp only: parseInlineStyle_def option.case split fl parse_declarations_append
          assms(10) sum.case parse_declarations.simps d(1) if_False simp_thms)
  have fin: "map_of style r = Some ?v"
    if "parseInlineStyle (Some ?css) = Inr style" "\<forall>d \<in> set after. declared_key d \<noteq> Some r"
    for style
  proof -
    from that(1) run have "parse_declarations (?ne after) (AList.update r ?v style0) = Inr style"
      by simp
    moreover have "\<forall>d \<in> set (?ne after). declared_key d \<noteq> Some r" using that(2) by simp
    ultimately have "map_of style r = map_of (AList.update r ?v style0) r"
      by (rule parse_declarations_other)
    then show ?thesis by (simp add: update_conv')
  qed
  have alone: "parseInlineStyle (Some ?css) = Inr [(r, ?v)]" if "before = [] \<and> after = []"
  proof -
    from that assms(10) have "style0 = []" by simp
    with run that show ?thesis by simp
  qed
  from run fin alone show ?thesis
    unfolding Let_def v[symmetric] by blast
qed

text \<open>The theorem at \<^verbatim>\<open>margin: 10px; padding: 20px\<close>, and the examples of the claim.
  \<^verbatim>\<open>3pt\<close> is the double \<^verbatim>\<open>3.9989999999999997\<close>. A later declaration of the same
  attribute overwrites the value.\<close>

theorem parseInlineStyle_unit_conversion_witness:
  "(''padding'', ''padding'') \<in> set CSS_TO_RN_MAP \<and> numeric_literal ''20''
   \<and> parse_declarations [''margin: 10px''] [] = Inr [(''margin'', NumberValue (Finite 10))]
   \<and> parseInlineStyle (Some ''margin: 10px; padding: 20px'')
       = Inr [(''margin'', NumberValue (Finite 10)), (''padding'', NumberValue (Finite 20))]
   \<and> parseInlineStyle (Some ''margin: 10px'') = Inr [(''margin'', NumberValue (Finite 10))]
   \<and> parseInlineStyle (Some ''font-size: 1em'') = Inr [(''fontSize'', NumberValue (Finite 16))]
   \<and> parseInlineStyle (Some ''width: 50%'') = Inr [(''width'', PercentString (Finite 50))]
   \<and> parseInlineStyle (Some ''line-height: 3pt'')
       = Inr [(''lineHeight'', NumberValue (Finite (4502473727463653 / 1125899906842624)))]
   \<and> parseInlineStyle (Some ''margin: 10px; margin: 2em'')
       = Inr [(''margin'', NumberValue (Finite 32))]"
proof -
  have a: "(''padding'', ''padding'') \<in> set CSS_TO_RN_MAP" by (simp add: CSS_TO_RN_MAP_def)
  have b: "numeric_literal ''20''" by (simp add: numeric_literal_def is_digit_or_dot_def is_digit_def)
  have c: "''px'' \<in> set css_units" by (simp add: css_units_def)
  have d: "parseFloat ''20'' = Finite 20" by code_simp
  have m: "parse_declarations [''margin: 10px''] [] = Inr [(''margin'', NumberValue (Finite 10))]"
    by code_simp
  have e: "parseInlineStyle (Some ''margin: 10px'') = Inr [(''margin'', NumberValue (Finite 10))]
   \<and> parseInlineStyle (Some ''font-size: 1em'') = Inr [(''fontSize'', NumberValue (Finite 16))]
   \<and> parseInlineStyle (Some ''width: 50%'') = Inr [(''width'', PercentString (Finite 50))]"
    by code_simp
  have f: "parseInlineStyle (Some ''line-height: 3pt'')
       = Inr [(''lineHeight'', NumberValue (Finite (4502473727463653 / 1125899906842624)))]"
    "parseInlineStyle (Some ''margin: 10px; margin: 2em'')
       = Inr [(''margin'', NumberValue (Finite 32))]"
    by code_simp+
  from parseInlineStyle_unit_conversion
         [of "''padding''" "''padding''" "''20''" "''px''" "'' ''" "[]" "'' ''" "[]"
             "[''margin: 10px'']" "[]" "[(''margin'', NumberValue (Finite 10))]"]
    a b c m
  have "parseInlineStyle (Some ''margin: 10px; padding: 20px'')
       = Inr [(''margin'', NumberValue (Finite 10)), (''padding'', NumberValue (Finite 20))]"
    by (simp add: is_space_def d Let_def)
  with a b m e f show ?thesis by simp
qed

text \<open>
  The claim as stated covers every recognized property. For \<^verbatim>\<open>font-weight\<close> the value
  is looked up in the font-weight table before the numeric pattern is tried, so
  \<^verbatim>\<open>font-weight: 10px\<close> yields the string \<^verbatim>\<open>10px\<close>, not the number 10. And a
  declaration is converted only when the loop gets to it: the declaration
  \<^verbatim>\<open>constructor: red\<close> before it makes \<^verbatim>\<open>parseInlineStyle\<close> throw.
\<close>

theorem font_weight_px_not_converted:
  "(''font-weight'', ''fontWeight'') \<in> set CSS_TO_RN_MAP \<and> numeric_literal ''10''
   \<and> parseInlineStyle (Some ''font-weight: 10px'') = Inr [(''fontWeight'', StringValue ''10px'')]
   \<and> parseInlineStyle (Some ''font-weight: 10px'') \<noteq> Inr [(''fontWeight'', NumberValue (Finite 10))]
   \<and> parse_declarations [''constructor: red''] []
       = Inl (ThrownError ''property.toLowerCase is not a function'')
   \<and> parseInlineStyle (Some ''constructor: red; margin: 10px'')
       = Inl (ThrownError ''property.toLowerCase is not a function'')"
  by code_simp

section \<open>Default styles (src/styles/defaultStyles.ts)\<close>

definition defaultTagStyles :: "RNStyle js_object" where
  "defaultTagStyles =
    [(''div'', [(''flexDirection'', StringValue ''column'')]),
     (''p'', [(''marginVertical'', NumberValue (Finite 12))]),
     (''blockquote'', [(''marginVertical'', NumberValue (Finite 16)),
        (''marginHorizontal'', NumberValue (Finite 0)),
        (''paddingLeft'', NumberValue (Finite 16)),
        (''borderLeftWidth'', NumberValue (Finite 4)),
        (''borderLeftColor'', StringValue ''#e0e0e0''),
        (''fontStyle'', StringValue ''italic''), (''color'', StringValue ''#666666'')]),
     (''article'', [(''flexDirection'', StringValue ''column'')]),
     (''section'', [(''flexDirection'', StringValue ''column'')]),
     (''header'', [(''flexDirection'', StringValue ''column'')]),
     (''footer'', [(''flexDirection'', StringValue ''column'')]),
     (''main'', [(''flexDirection'', StringValue ''column'')]),
     (''aside'', [(''flexDirection'', StringValue ''column'')]),
     (''nav'', [(''flexDirection'', StringValue ''column'')]),
     (''h1'', [(''fontSize'', NumberValue (Finite 32)),
        (''fontWeight'', StringValue ''bold''), (''marginTop'', NumberValue (Finite 24)),
        (''marginBottom'', NumberValue (Finite 16)),
        (''lineHeight'', NumberValue (Finite 40))]),
     (''h2'', [(''fontSize'', NumberValue (Finite 28)),
        (''fontWeight'', StringValue ''bold''), (''marginTop'', NumberValue (Finite 20)),
        (''marginBottom'', NumberValue (Finite 14)),
        (''lineHeight'', NumberValue (Finite 36))]),
     (''h3'', [(''fontSize'', NumberValue (Finite 24)),
        (''fontWeight'', StringValue ''bold''), (''marginTop'', NumberValue (Finite 18)),
        (''marginBottom'', NumberValue (Finite 12)),
        (''lineHeight'', NumberValue (Finite 32))]),
     (''h4'', [(''fontSize'', NumberValue (Finite 20)),
        (''fontWeight'', StringValue ''bold''), (''marginTop'', NumberValue (Finite 16)),
        (''marginBottom'', NumberValue (Finite 10)),
        (''lineHeight'', NumberValue (Finite 28))]),
     (''h5'', [(''fontSize'', NumberValue (Finite 18)),
        (''fontWeight'', StringValue ''bold''), (''marginTop'', NumberValue (Finite 14)),
        (''marginBottom'', NumberValue (Finite 8)), (''lineHeight'', NumberValue (Finite 26))]),
     (''h6'', [(''fontSize'', NumberValue (Finite 16)),
        (''fontWeight'', StringValue ''bold''), (''marginTop'', NumberValue (Finite 12)),
        (''marginBottom'', NumberValue (Finite 8)), (''lineHeight'', NumberValue (Finite 24))]),
     (''span'', []),
     (''strong'', [(''fontWeight'', StringValue ''bold'')]),
     (''b'', [(''fontWeight'', StringValue ''bold'')]),
     (''em'', [(''fontStyle'', StringValue ''italic'')]),
     (''i'', [(''fontStyle'', StringValue ''italic'')]),
     (''u'', [(''textDecorationLine'', StringValue ''underline'')]),
     (''s'', [(''textDecorationLine'', StringValue ''line-through'')]),
     (''strike'', [(''textDecorationLine'', StringValue ''line-through'')]),
     (''del'', [(''textDecorationLine'', StringValue ''line-through''),
        (''color'', StringValue ''#888888'')]),
     (''ins'', [(''textDecorationLine'', StringValue ''underline''),
        (''color'', StringValue ''#2e7d32'')]),
     (''mark'', [(''backgroundColor'', StringValue ''#ffeb3b''),
        (''color'', StringValue ''#1a1a1a'')]),
     (''small'', [(''fontSize'', NumberValue (Finite 12))]),
     (''sub'', [(''fontSize'', NumberValue (Finite 12))]),
     (''sup'', [(''fontSize'', NumberValue (Finite 12))]),
     (''ul'', [(''marginVertical'', NumberValue (Finite 12)),
        (''paddingLeft'', NumberValue (Finite 20))]),
     (''ol'', [(''marginVertical'', NumberValue (Finite 12)),
        (''paddingLeft'', NumberValue (Finite 20))]),
     (''li'', [(''marginVertical'', NumberValue (Finite 4)),
        (''flexDirection'', StringValue ''row'')]),
     (''a'', [(''color'', StringValue ''#1976d2''),
        (''textDecorationLine'', StringValue ''underline'')]),
     (''img'', []),
     (''hr'', [(''height'', NumberValue (Finite 1)),
        (''backgroundColor'', StringValue ''#e0e0e0''),
        (''marginVertical'', NumberValue (Finite 16)),
        (''borderWidth'', NumberValue (Finite 0))]),
     (''table'', [(''borderWidth'', NumberValue (Finite 1)),
        (''borderColor'', StringValue ''#e0e0e0''),
        (''marginVertical'', NumberValue (Finite 12))]),
     (''thead'', [(''backgroundColor'', StringValue ''#f5f5f5'')]),
     (''tbody'', []),
     (''tfoot'', [(''backgroundColor'', StringValue ''#f5f5f5'')]),
     (''tr'', [(''flexDirection'', StringValue ''row''),
        (''borderBottomWidth'', NumberValue (Finite 1)),
        (''borderBottomColor'', StringValue ''#e0e0e0'')]),
     (''th'', [(''flex'', NumberValue (Finite 1)), (''padding'', NumberValue (Finite 8)),
        (''fontWeight'', StringValue ''bold''),
        (''borderRightWidth'', NumberValue (Finite 1)),
        (''borderRightColor'', StringValue ''#e0e0e0''),
        (''textAlign'', StringValue ''center'')]),
     (''td'', [(''flex'', NumberValue (Finite 1)), (''padding'', NumberValue (Finite 8)),
        (''borderRightWidth'', NumberValue (Finite 1)),
        (''borderRightColor'', StringValue ''#e0e0e0'')]),
     (''caption'', [(''textAlign'', StringValue ''center''),
        (''fontStyle'', StringValue ''italic''), (''marginBottom'', NumberValue (Finite 8))]),
     (''pre'', [(''backgroundColor'', StringValue ''#f5f5f5''),
        (''padding'', NumberValue (Finite 12)), (''borderRadius'', NumberValue (Finite 4)),
        (''marginVertical'', NumberValue (Finite 12)), (''overflow'', StringValue ''hidden'')]),
     (''code'', [(''fontFamily'', StringValue ''monospace''),
        (''fontSize'', NumberValue (Finite 14)),
        (''backgroundColor'', StringValue ''#f5f5f5''),
        (''paddingHorizontal'', NumberValue (Finite 4)),
        (''paddingVertical'', NumberValue (Finite 2)),
        (''borderRadius'', NumberValue (Finite 2))]),
     (''figure'', [(''alignItems'', StringValue ''center''),
        (''marginVertical'', NumberValue (Finite 16))]),
     (''figcaption'', [(''fontSize'', NumberValue (Finite 14)),
        (''fontStyle'', StringValue ''italic''), (''color'', StringValue ''#666666''),
        (''marginTop'', NumberValue (Finite 8)), (''textAlign'', StringValue ''center'')]),
     (''details'', [(''marginVertical'', NumberValue (Finite 8))]),
     (''summary'', [(''fontWeight'', StringValue ''bold'')]),
     (''br'', [(''height'', NumberValue (Finite 0))])]"

text \<open>\<^verbatim>\<open>defaultTagStyles[tagName] || {}\<close>, a read of a plain object\<close>

definition getDefaultTagStyle :: "string \<Rightarrow> style_source" where
  "getDefaultTagStyle tag =
     (case js_get defaultTagStyles tag of
        OwnValue s \<Rightarrow> StyleObject s
      | PrototypeMember m \<Rightarrow> InheritedMember m
      | NotFound \<Rightarrow> StyleObject [])"

definition TEXT_ONLY_TAGS :: "string list" where
  "TEXT_ONLY_TAGS =
     [''span'', ''strong'', ''b'', ''em'', ''i'', ''u'', ''s'', ''strike'', ''del'', ''ins'',
      ''mark'', ''small'', ''sub'', ''sup'', ''code'', ''a'']"

definition isTextOnlyTag :: "string \<Rightarrow> bool" where
  "isTextOnlyTag tag \<longleftrightarrow> tag \<in> set TEXT_ONLY_TAGS"

section \<open>Style resolver (src/styles/styleResolver.ts)\<close>

text \<open>The configuration; the transformer is a user function, which returns a style or
  throws.\<close>

record StyleResolverConfig =
  tagsStyles :: "RNStyle js_object option"
  classesStyles :: "RNStyle js_object option"
  baseTextStyle :: "RNStyle option"
  useDefaultStyles :: "bool option"
  styleTransformer :: "(RNStyle \<Rightarrow> HtmlNode \<Rightarrow> js_thrown + RNStyle) option"

record ResolvedStyle =
  style :: RNStyle
  isTextElement :: bool
  hasCustomStyles :: bool

text \<open>The defaults of the destructuring in \<^verbatim>\<open>createStyleResolver\<close>.\<close>

definition config_tagsStyles :: "StyleResolverConfig \<Rightarrow> RNStyle js_object" where
  "config_tagsStyles config = (case tagsStyles config of None \<Rightarrow> [] | Some t \<Rightarrow> t)"

definition config_classesStyles :: "StyleResolverConfig \<Rightarrow> RNStyle js_object" where
  "config_classesStyles config = (case classesStyles config of None \<Rightarrow> [] | Some t \<Rightarrow> t)"

definition config_baseTextStyle :: "StyleResolverConfig \<Rightarrow> RNStyle" where
  "config_baseTextStyle config = (case baseTextStyle config of None \<Rightarrow> [] | Some t \<Rightarrow> t)"

definition config_useDefaultStyles :: "StyleResolverConfig \<Rightarrow> bool" where
  "config_useDefaultStyles config = (case useDefaultStyles config of None \<Rightarrow> True | Some b \<Rightarrow> b)"

text \<open>Steps 1 and 2 of \<^verbatim>\<open>resolveStyle\<close>: the array \<^verbatim>\<open>styles\<close> after the base text
  style and the default tag style.\<close>

definition push_builtin_styles :: "StyleResolverConfig \<Rightarrow> HtmlNode \<Rightarrow> style_source list" where
  "push_builtin_styles config n =
     (let styles1 =
            (if isTextOnlyTag (tagName n) \<and> js_keys (config_baseTextStyle config) \<noteq> []
             then [StyleObject (config_baseTextStyle config)] else []);
          defaultStyle = getDefaultTagStyle (tagName n)
      in if config_useDefaultStyles config \<and> js_keys (own_properties defaultStyle) \<noteq> []
         then styles1 @ [defaultStyle] else styles1)"

text \<open>
  The pattern of steps 3 and 4, on the array \<^verbatim>\<open>styles\<close> and the flag
  \<^verbatim>\<open>hasCustomStyles\<close>: what the read of the table found is pushed when it is truthy,
  and the flag is set. A style object is truthy, and so is an inherited member.
\<close>

definition push_found ::
  "RNStyle js_lookup \<Rightarrow> style_source list \<times> bool \<Rightarrow> style_source list \<times> bool" where
  "push_found found acc =
     (case found of
        OwnValue s \<Rightarrow> (fst acc @ [StyleObject s], True)
      | PrototypeMember m \<Rightarrow> (fst acc @ [InheritedMember m], True)
      | NotFound \<Rightarrow> acc)"

text \<open>Step 4: the loop over \<^verbatim>\<open>node.classNames\<close>, with the read
  \<^verbatim>\<open>classesStyles[className]\<close>.\<close>

fun push_class_styles ::
  "RNStyle js_object \<Rightarrow> string list \<Rightarrow> style_source list \<times> bool \<Rightarrow> style_source list \<times> bool" where
  "push_class_styles classesSt [] acc = acc"
| "push_class_styles classesSt (className # rest) acc =
     push_class_styles classesSt rest (push_found (js_get classesSt className) acc)"

text \<open>Steps 3 to 5: user tag style (the read \<^verbatim>\<open>tagsStyles[node.tagName]\<close>), class
  styles, inline style. An exception of \<^verbatim>\<open>parseInlineStyle\<close> is not caught.\<close>

definition push_custom_styles ::
  "StyleResolverConfig \<Rightarrow> HtmlNode \<Rightarrow> style_source list \<times> bool
     \<Rightarrow> js_thrown + (style_source list \<times> bool)" where
  "push_custom_styles config n acc =
     (let acc3 = push_found (js_get (config_tagsStyles config) (tagName n)) acc;
          acc4 =
            (case classNames n of
               Some names \<Rightarrow> push_class_styles (config_classesStyles config) names acc3
             | None \<Rightarrow> acc3)
      in case map_of (attributes n) ''style'' of
           None \<Rightarrow> Inr acc4
         | Some css \<Rightarrow>
             if css = [] then Inr acc4
             else
               (case parseInlineStyle (Some css) of
                  Inl e \<Rightarrow> Inl e
                | Inr inlineStyle \<Rightarrow>
                    if js_keys inlineStyle \<noteq> []
                    then Inr (fst acc4 @ [StyleObject inlineStyle], True)
                    else Inr acc4))"

text \<open>\<^verbatim>\<open>resolveStyle(node)\<close> of the resolver that \<^verbatim>\<open>createStyleResolver(config)\<close>
  returns; \<open>Inl\<close> is the exception thrown.\<close>

definition resolveStyle :: "StyleResolverConfig \<Rightarrow> HtmlNode \<Rightarrow> js_thrown + ResolvedStyle" where
  "resolveStyle config n =
     (case push_custom_styles config n (push_builtin_styles config n, False) of
        Inl e \<Rightarrow> Inl e
      | Inr collected \<Rightarrow>
          (let merged = mergeStyles (map Some (fst collected)) in
           case styleTransformer config of
             None \<Rightarrow>
               Inr \<lparr>style = merged, isTextElement = isTextOnlyTag (tagName n),
                    hasCustomStyles = snd collected\<rparr>
           | Some transformer \<Rightarrow>
               (case transformer merged n of
                  Inl e \<Rightarrow> Inl e
                | Inr finalStyle \<Rightarrow>
                    Inr \<lparr>style = finalStyle, isTextElement = isTextOnlyTag (tagName n),
                         hasCustomStyles = snd collected\<rparr>)))"

subsection \<open>The five tiers\<close>

text \<open>
  The sources of a node's style as maps from attribute keys to values, following the spec:
  the configured base text style for a tag of the text-bearing set, the entry of the
  built-in table for the tag unless the defaults are switched off, the user's style for
  the tag, the user's class styles in the order of \<^verbatim>\<open>classNames\<close> (a later class
  overrides an earlier one), and the parsed inline style.
\<close>

definition base_tier :: "StyleResolverConfig \<Rightarrow> HtmlNode \<Rightarrow> string \<rightharpoonup> style_value" where
  "base_tier config n =
     (if tagName n \<in> {''span'', ''strong'', ''b'', ''em'', ''i'', ''u'', ''s'', ''strike'', ''del'',
                       ''ins'', ''mark'', ''small'', ''sub'', ''sup'', ''code'', ''a''}
      then (case baseTextStyle config of Some s \<Rightarrow> map_of s | None \<Rightarrow> Map.empty)
      else Map.empty)"

definition default_tier :: "StyleResolverConfig \<Rightarrow> HtmlNode \<Rightarrow> string \<rightharpoonup> style_value" where
  "default_tier config n =
     (if useDefaultStyles config = Some False then Map.empty
      else (case map_of defaultTagStyles (tagName n) of Some s \<Rightarrow> map_of s | None \<Rightarrow> Map.empty))"

definition tag_tier :: "StyleResolverConfig \<Rightarrow> HtmlNode \<Rightarrow> string \<rightharpoonup> style_value" where
  "tag_tier config n =
     (case tagsStyles config of
        None \<Rightarrow> Map.empty
      | Some t \<Rightarrow> (case map_of t (tagName n) of Some s \<Rightarrow> map_of s | None \<Rightarrow> Map.empty))"

definition class_map :: "StyleResolverConfig \<Rightarrow> string \<Rightarrow> string \<rightharpoonup> style_value" where
  "class_map config c =
     (case classesStyles config of
        None \<Rightarrow> Map.empty
      | Some t \<Rightarrow> (case map_of t c of Some s \<Rightarrow> map_of s | None \<Rightarrow> Map.empty))"

definition node_classNames :: "HtmlNode \<Rightarrow> string list" where
  "node_classNames n = (case classNames n of Some names \<Rightarrow> names | None \<Rightarrow> [])"

definition class_tier :: "StyleResolverConfig \<Rightarrow> HtmlNode \<Rightarrow> string \<rightharpoonup> style_value" where
  "class_tier config n = foldl (++) Map.empty (map (class_map config) (node_classNames n))"

text \<open>The outcome of parsing the \<^verbatim>\<open>style\<close> attribute of a node; a node without the
  attribute has the empty inline style.\<close>

definition inline_style :: "HtmlNode \<Rightarrow> js_thrown + RNStyle" where
  "inline_style n =
     (case map_of (attributes n) ''style'' of
        Some css \<Rightarrow> if css \<noteq> [] then parseInlineStyle (Some css) else Inr []
      | None \<Rightarrow> Inr [])"

text \<open>What steps 3 to 5 push: the contributions of the custom tiers.\<close>

definition custom_contributions :: "StyleResolverConfig \<Rightarrow> HtmlNode \<Rightarrow> style_source list" where
  "custom_contributions config n =
     (case push_custom_styles config n ([], False) of
        Inl e \<Rightarrow> []
      | Inr collected \<Rightarrow> fst collected)"

text \<open>A read of a table under a key finds a member inherited from
  \<^verbatim>\<open>Object.prototype\<close>.\<close>

definition finds_inherited :: "'v js_object \<Rightarrow> string \<Rightarrow> bool" where
  "finds_inherited table k =
     (case js_get table k of PrototypeMember m \<Rightarrow> True | OwnValue v \<Rightarrow> False | NotFound \<Rightarrow> False)"

text \<open>
  Examples: a base text style, a user tag style and a class style for \<^verbatim>\<open>mark\<close>, a
  text-bearing tag whose built-in default sets \<^verbatim>\<open>color\<close> and not \<^verbatim>\<open>fontSize\<close>; a
  configuration whose tag style for \<^verbatim>\<open>p\<close> is the empty object; the empty
  configuration; a paragraph, with attributes or without.
\<close>

definition demo_style_config :: StyleResolverConfig where
  "demo_style_config =
     \<lparr>tagsStyles = Some [(''mark'', [(''color'', StringValue ''red'')])],
      classesStyles = Some [(''hl'', [(''color'', StringValue ''blue'')])],
      baseTextStyle = Some [(''color'', StringValue ''gray''), (''fontSize'', NumberValue (Finite 10))],
      useDefaultStyles = None, styleTransformer = None\<rparr>"

definition demo_style_node :: "string \<Rightarrow> string js_object \<Rightarrow> string list option \<Rightarrow> HtmlNode" where
  "demo_style_node tag attrs names = ElementNode 0 ''html-node-1'' tag attrs names [] None None"

definition empty_tag_style_config :: StyleResolverConfig where
  "empty_tag_style_config =
     \<lparr>tagsStyles = Some [(''p'', [])], classesStyles = None,
      baseTextStyle = None, useDefaultStyles = None, styleTransformer = None\<rparr>"

definition empty_style_config :: StyleResolverConfig where
  "empty_style_config =
     \<lparr>tagsStyles = None, classesStyles = None, baseTextStyle = None, useDefaultStyles = None,
      styleTransformer = None\<rparr>"

definition plain_paragraph :: HtmlNode where
  "plain_paragraph = ElementNode 0 ''html-node-1'' ''p'' [] None [] None None"

subsection \<open>Precedence\<close>

lemma map_of_fold_object_assign:
  "map_of (fold (\<lambda>s acc. object_assign acc (own_properties s)) styles acc)
     = foldl (++) (map_of acc) (map (\<lambda>s. map_of (own_properties s)) styles)"
  by (induction styles arbitrary: acc) (simp_all add: map_of_object_assign)

lemma map_filter_id_Some [simp]: "List.map_filter id (map Some xs) = xs"
  by (induction xs) (simp_all add: List.map_filter_simps)

lemma map_of_mergeStyles:
  "map_of (mergeStyles (map Some styles))
     = foldl (++) Map.empty (map (\<lambda>s. map_of (own_properties s)) styles)"
  by (simp add: mergeStyles_def map_of_fold_object_assign)

lemma foldl_map_add: "foldl (++) m ms = m ++ foldl (++) Map.empty ms"
proof (induction ms arbitrary: m)
  case Nil
  then show ?case by simp
next
  case (Cons a ms)
  have "foldl (++) (m ++ a) ms = (m ++ a) ++ foldl (++) Map.empty ms" by (rule Cons.IH)
  moreover have "foldl (++) (Map.empty ++ a) ms = (Map.empty ++ a) ++ foldl (++) Map.empty ms"
    by (rule Cons.IH)
  ultimately show ?case by simp
qed

lemma foldl_map_add_append:
  "foldl (++) Map.empty (xs @ ys) = foldl (++) Map.empty xs ++ foldl (++) Map.empty ys"
  by (simp add: foldl_map_add[of "foldl (++) Map.empty xs" ys])

text \<open>What a read pushes: nothing or one source.\<close>

definition pushed :: "RNStyle js_lookup \<Rightarrow> style_source list" where
  "pushed found =
     (case found of
        OwnValue s \<Rightarrow> [StyleObject s]
      | PrototypeMember m \<Rightarrow> [InheritedMember m]
      | NotFound \<Rightarrow> [])"

lemma push_found_eq:
  "push_found found (styles, has) = (styles @ pushed found, has \<or> pushed found \<noteq> [])"
  by (simp add: push_found_def pushed_def split: js_lookup.splits)

lemma push_class_styles_eq:
  "push_class_styles cs names (styles, has)
     = (styles @ concat (map (\<lambda>c. pushed (js_get cs c)) names),
        has \<or> (\<exists>c \<in> set names. pushed (js_get cs c) \<noteq> []))"
  by (induction names arbitrary: styles has) (auto simp: push_found_eq)

lemma push_custom_styles_eq:
  "push_custom_styles config n (styles, has) =
     (case inline_style n of
        Inl e \<Rightarrow> Inl e
      | Inr inl \<Rightarrow>
          Inr (styles
                 @ pushed (js_get (config_tagsStyles config) (tagName n))
                 @ concat (map (\<lambda>c. pushed (js_get (config_classesStyles config) c))
                             (node_classNames n))
                 @ (if inl \<noteq> [] then [StyleObject inl] else []),
               has \<or> pushed (js_get (config_tagsStyles config) (tagName n)) \<noteq> []
                   \<or> (\<exists>c \<in> set (node_classNames n).
                         pushed (js_get (config_classesStyles config) c) \<noteq> [])
                   \<or> inl \<noteq> []))"
  by (auto simp: push_custom_styles_def Let_def push_found_eq push_class_styles_eq
        node_classNames_def inline_style_def split: option.splits sum.splits)

lemma builtin_maps:
  "foldl (++) Map.empty (map (\<lambda>s. map_of (own_properties s)) (push_builtin_styles config n))
     = base_tier config n ++ default_tier config n"
proof -
  have base: "(if isTextOnlyTag (tagName n) \<and> js_keys (config_baseTextStyle config) \<noteq> []
               then map_of (config_baseTextStyle config) else Map.empty) = base_tier config n"
    by (auto simp: base_tier_def isTextOnlyTag_def TEXT_ONLY_TAGS_def config_baseTextStyle_def
          split: option.splits)
  have dflt: "(if config_useDefaultStyles config
                   \<and> js_keys (own_properties (getDefaultTagStyle (tagName n))) \<noteq> []
               then map_of (own_properties (getDefaultTagStyle (tagName n))) else Map.empty)
      = default_tier config n"
    by (auto simp: default_tier_def config_useDefaultStyles_def getDefaultTagStyle_def
          js_get_def own_properties_def split: option.splits)
  show ?thesis
    unfolding base[symmetric] dflt[symmetric]
    by (simp add: push_builtin_styles_def Let_def own_properties_def)
qed

lemma tag_maps:
  "foldl (++) Map.empty (map (\<lambda>s. map_of (own_properties s))
      (pushed (js_get (config_tagsStyles config) (tagName n)))) = tag_tier config n"
  by (auto simp: pushed_def js_get_def tag_tier_def config_tagsStyles_def own_properties_def
        split: option.splits)

lemma class_maps:
  "foldl (++) Map.empty (map (\<lambda>s. map_of (own_properties s))
      (concat (map (\<lambda>c. pushed (js_get (config_classesStyles config) c)) names)))
     = foldl (++) Map.empty (map (class_map config) names)"
proof (induction names)
  case Nil
  then show ?case by simp
next
  case (Cons c names)
  have one: "foldl (++) Map.empty (map (\<lambda>s. map_of (own_properties s))
      (pushed (js_get (config_classesStyles config) c))) = class_map config c"
    by (auto simp: pushed_def js_get_def class_map_def config_classesStyles_def
          own_properties_def split: option.splits)
  show ?case
    using Cons.IH one
    by (simp add: foldl_map_add_append foldl_map_add[of "class_map config c"])
qed

lemma foldl_class_maps_last:
  "foldl (++) Map.empty (map f names) k =
     (case filter (\<lambda>c. f c k \<noteq> None) names of [] \<Rightarrow> None | c # cs \<Rightarrow> f (last (c # cs)) k)"
proof (induction names rule: rev_induct)
  case Nil
  then show ?case by simp
next
  case (snoc c names)
  show ?case
  proof (cases "f c k")
    case None
    with snoc show ?thesis
      by (simp add: foldl_map_add_append map_add_def)
  next
    case (Some v)
    let ?fs = "filter (\<lambda>c. f c k \<noteq> None) names"
    have fl: "filter (\<lambda>c. f c k \<noteq> None) (names @ [c]) = ?fs @ [c]"
      using Some by simp
    have "(case ?fs @ [c] of [] \<Rightarrow> None | x # xs \<Rightarrow> f (last (x # xs)) k) = f c k"
      by (cases ?fs) simp_all
    with Some show ?thesis
      unfolding fl by (simp add: foldl_map_add_append map_add_def)
  qed
qed

text \<open>
  Wherever the \<^verbatim>\<open>style\<close> attribute of the node parses, the style that
  \<^verbatim>\<open>resolveStyle\<close> merges (and hands to the transformer, when one is configured) takes
  every attribute key from the highest tier that defines it: inline style, then class
  styles (the last class in \<^verbatim>\<open>classNames\<close> that defines the key), then the user tag
  style, then the built-in default, then the base text style. When the attribute does not
  parse, \<^verbatim>\<open>resolveStyle\<close> throws what the style parser threw.
\<close>

lemma style_precedence:
  "case inline_style n of
     Inl e \<Rightarrow> resolveStyle config n = Inl e
   | Inr inl \<Rightarrow>
       \<exists>merged has.
         resolveStyle config n
           = (case styleTransformer config of
                None \<Rightarrow> Inr \<lparr>style = merged, isTextElement = isTextOnlyTag (tagName n),
                             hasCustomStyles = has\<rparr>
              | Some transformer \<Rightarrow>
                  (case transformer merged n of
                     Inl e \<Rightarrow> Inl e
                   | Inr finalStyle \<Rightarrow>
                       Inr \<lparr>style = finalStyle, isTextElement = isTextOnlyTag (tagName n),
                            hasCustomStyles = has\<rparr>))
         \<and> map_of merged
             = base_tier config n ++ default_tier config n ++ tag_tier config n
                 ++ class_tier config n ++ map_of inl
         \<and> (\<forall>k. map_of merged k =
              (case map_of inl k of Some v \<Rightarrow> Some v | None \<Rightarrow>
               case class_tier config n k of Some v \<Rightarrow> Some v | None \<Rightarrow>
               case tag_tier config n k of Some v \<Rightarrow> Some v | None \<Rightarrow>
               case default_tier config n k of Some v \<Rightarrow> Some v | None \<Rightarrow>
               base_tier config n k))
         \<and> (\<forall>k. class_tier config n k =
              (case filter (\<lambda>c. class_map config c k \<noteq> None) (node_classNames n) of
                 [] \<Rightarrow> None
               | c # cs \<Rightarrow> class_map config (last (c # cs)) k))"
proof (cases "inline_style n")
  case (Inl e)
  then show ?thesis by (simp add: resolveStyle_def push_custom_styles_eq)
next
  case (Inr inl)
  let ?B = "push_builtin_styles config n"
  let ?T = "pushed (js_get (config_tagsStyles config) (tagName n))"
  let ?C = "concat (map (\<lambda>c. pushed (js_get (config_classesStyles config) c)) (node_classNames n))"
  let ?I = "if inl \<noteq> [] then [StyleObject inl] else []"
  let ?has = "pushed (js_get (config_tagsStyles config) (tagName n)) \<noteq> []
      \<or> (\<exists>c \<in> set (node_classNames n). pushed (js_get (config_classesStyles config) c) \<noteq> [])
      \<or> inl \<noteq> []"
  let ?merged = "mergeStyles (map Some (?B @ ?T @ ?C @ ?I))"
  let ?own = "\<lambda>s. map_of (own_properties s)"
  have pc: "push_custom_styles config n (?B, False) = Inr (?B @ ?T @ ?C @ ?I, ?has)"
    by (simp add: push_custom_styles_eq Inr)
  have 1: "resolveStyle config n
           = (case styleTransformer config of
                None \<Rightarrow> Inr \<lparr>style = ?merged, isTextElement = isTextOnlyTag (tagName n),
                             hasCustomStyles = ?has\<rparr>
              | Some transformer \<Rightarrow>
                  (case transformer ?merged n of
                     Inl e \<Rightarrow> Inl e
                   | Inr finalStyle \<Rightarrow>
                       Inr \<lparr>style = finalStyle, isTextElement = isTextOnlyTag (tagName n),
                            hasCustomStyles = ?has\<rparr>))"
    unfolding resolveStyle_def pc sum.case Let_def fst_conv snd_conv by (rule refl)
  have inl: "foldl (++) Map.empty (map ?own ?I) = map_of inl"
    by (simp add: own_properties_def)
  have "map_of ?merged = foldl (++) Map.empty (map ?own (?B @ ?T @ ?C @ ?I))"
    by (simp only: map_of_mergeStyles)
  also have "\<dots> = foldl (++) Map.empty (map ?own ?B) ++ (foldl (++) Map.empty (map ?own ?T)
      ++ (foldl (++) Map.empty (map ?own ?C) ++ foldl (++) Map.empty (map ?own ?I)))"
    by (simp only: map_append foldl_map_add_append)
  also have "\<dots> = (base_tier config n ++ default_tier config n) ++ (tag_tier config n
      ++ (class_tier config n ++ map_of inl))"
    by (simp only: builtin_maps tag_maps class_maps inl class_tier_def)
  finally have 2: "map_of ?merged
         = base_tier config n ++ default_tier config n ++ tag_tier config n
             ++ class_tier config n ++ map_of inl"
    by (simp only: map_add_assoc)
  have 3: "map_of ?merged k =
          (case map_of inl k of Some v \<Rightarrow> Some v | None \<Rightarrow>
           case class_tier config n k of Some v \<Rightarrow> Some v | None \<Rightarrow>
           case tag_tier config n k of Some v \<Rightarrow> Some v | None \<Rightarrow>
           case default_tier config n k of Some v \<Rightarrow> Some v | None \<Rightarrow>
           base_tier config n k)" for k
    unfolding 2 by (simp add: map_add_def split: option.splits)
  have 4: "class_tier config n k =
          (case filter (\<lambda>c. class_map config c k \<noteq> None) (node_classNames n) of
             [] \<Rightarrow> None
           | c # cs \<Rightarrow> class_map config (last (c # cs)) k)" for k
    unfolding class_tier_def by (rule foldl_class_maps_last)
  from 1 2 3 4 show ?thesis unfolding Inr sum.case by blast
qed

text \<open>
  The example of the claim on the tag \<^verbatim>\<open>mark\<close>, whose built-in colour is
  \<^verbatim>\<open>#1a1a1a\<close>, with a base text style that sets the colour too: inline green wins;
  without the inline declaration the class's blue; without the class the user tag style's
  red; without the user tag style the default; without the defaults the base style's gray.
  The font size, which no other tier sets, comes from the base style; on a paragraph,
  which is not text-bearing, the base style does not apply.
\<close>

lemma style_precedence_example:
  "resolveStyle demo_style_config
       (demo_style_node ''mark'' [(''class'', ''hl''), (''style'', ''color: green'')] (Some [''hl'']))
     = Inr \<lparr>style = [(''color'', StringValue ''green''), (''fontSize'', NumberValue (Finite 10)),
                     (''backgroundColor'', StringValue ''#ffeb3b'')],
            isTextElement = True, hasCustomStyles = True\<rparr>
   \<and> resolveStyle demo_style_config (demo_style_node ''mark'' [(''class'', ''hl'')] (Some [''hl'']))
     = Inr \<lparr>style = [(''color'', StringValue ''blue''), (''fontSize'', NumberValue (Finite 10)),
                     (''backgroundColor'', StringValue ''#ffeb3b'')],
            isTextElement = True, hasCustomStyles = True\<rparr>
   \<and> resolveStyle demo_style_config (demo_style_node ''mark'' [] None)
     = Inr \<lparr>style = [(''color'', StringValue ''red''), (''fontSize'', NumberValue (Finite 10)),
                     (''backgroundColor'', StringValue ''#ffeb3b'')],
            isTextElement = True, hasCustomStyles = True\<rparr>
   \<and> resolveStyle (demo_style_config\<lparr>tagsStyles := None\<rparr>) (demo_style_node ''mark'' [] None)
     = Inr \<lparr>style = [(''color'', StringValue ''#1a1a1a''), (''fontSize'', NumberValue (Finite 10)),
                     (''backgroundColor'', StringValue ''#ffeb3b'')],
            isTextElement = True, hasCustomStyles = False\<rparr>
   \<and> resolveStyle (demo_style_config\<lparr>tagsStyles := None, useDefaultStyles := Some False\<rparr>)
       (demo_style_node ''mark'' [] None)
     = Inr \<lparr>style = [(''color'', StringValue ''gray''), (''fontSize'', NumberValue (Finite 10))],
            isTextElement = True, hasCustomStyles = False\<rparr>
   \<and> resolveStyle demo_style_config (demo_style_node ''p'' [] None)
     = Inr \<lparr>style = [(''marginVertical'', NumberValue (Finite 12))],
            isTextElement = False, hasCustomStyles = False\<rparr>"
  by code_simp

text \<open>
  Claim C1. The claim gives every element node a merged style. The style parser reads its
  property table as a plain object: for the declaration \<^verbatim>\<open>constructor: red\<close> the read
  \<^verbatim>\<open>CSS_TO_RN_MAP['constructor']\<close> finds the inherited function \<^verbatim>\<open>Object\<close> instead
  of \<^verbatim>\<open>undefined\<close>, the declaration is not skipped, and \<^verbatim>\<open>isColorProperty\<close> calls
  \<^verbatim>\<open>toLowerCase\<close> on that function. For a paragraph with this \<^verbatim>\<open>style\<close> attribute
  and the empty configuration, and for the element of the claim's example with the
  declaration added to its \<^verbatim>\<open>style\<close> attribute, \<^verbatim>\<open>resolveStyle\<close> throws a
  \<^verbatim>\<open>TypeError\<close> and merges nothing. A property that is simply unknown is skipped, as
  the comment in the loop says.
\<close>

theorem resolveStyle_throws_on_inherited_property:
  "resolveStyle empty_style_config (demo_style_node ''p'' [(''style'', ''constructor: red'')] None)
     = Inl (ThrownError ''property.toLowerCase is not a function'')
   \<and> resolveStyle demo_style_config
       (demo_style_node ''mark'' [(''class'', ''hl''), (''style'', ''color: green; constructor: red'')]
          (Some [''hl'']))
     = Inl (ThrownError ''property.toLowerCase is not a function'')
   \<and> resolveStyle empty_style_config (demo_style_node ''p'' [(''style'', ''bogus: red'')] None)
     = Inr \<lparr>style = [(''marginVertical'', NumberValue (Finite 12))], isTextElement = False,
            hasCustomStyles = False\<rparr>"
  by code_simp

subsection \<open>The flag for custom styles\<close>

text \<open>The flag is set exactly when the custom tiers pushed something.\<close>

lemma hasCustomStyles_pushed:
  assumes "resolveStyle config n = Inr r"
  shows "hasCustomStyles r \<longleftrightarrow> custom_contributions config n \<noteq> []"
proof -
  from assms obtain collected where
    c: "push_custom_styles config n (push_builtin_styles config n, False) = Inr collected"
    and h: "hasCustomStyles r = snd collected"
    by (auto simp: resolveStyle_def Let_def split: sum.splits option.splits)
  from c obtain inl where inl: "inline_style n = Inr inl"
    by (auto simp: push_custom_styles_eq split: sum.splits)
  show ?thesis
    using c h by (auto simp: custom_contributions_def push_custom_styles_eq inl)
qed

text \<open>
  Claim C9, amended. When \<^verbatim>\<open>resolveStyle\<close> returns and neither the tag name nor a
  class name of the node finds an inherited member in the configured tables,
  \<^verbatim>\<open>hasCustomStyles\<close> holds exactly when a custom tier contributed a style object to
  the merge: the user has a style for the tag, or for one of the node's classes, or the
  inline style parses to a non-empty object. A user tag or class style counts even when it
  is the empty object; when no configured tag or class style is empty, the flag holds
  exactly when a custom tier contributed a non-empty style object.
\<close>

theorem hasCustomStyles_iff:
  assumes "resolveStyle config n = Inr r"
    and "\<not> finds_inherited (config_tagsStyles config) (tagName n)"
    and "\<forall>c \<in> set (node_classNames n). \<not> finds_inherited (config_classesStyles config) c"
  shows "(hasCustomStyles r \<longleftrightarrow>
            (\<exists>s. map_of (config_tagsStyles config) (tagName n) = Some s)
            \<or> (\<exists>c \<in> set (node_classNames n). \<exists>s. map_of (config_classesStyles config) c = Some s)
            \<or> (\<exists>inl. inline_style n = Inr inl \<and> inl \<noteq> []))
       \<and> (hasCustomStyles r \<longleftrightarrow> custom_contributions config n \<noteq> [])
       \<and> (\<forall>s \<in> set (custom_contributions config n). \<exists>obj. s = StyleObject obj)
       \<and> ((\<forall>s \<in> snd ` set (config_tagsStyles config) \<union> snd ` set (config_classesStyles config).
              s \<noteq> [])
            \<longrightarrow> (hasCustomStyles r
                  \<longleftrightarrow> list_ex (\<lambda>s. own_properties s \<noteq> []) (custom_contributions config n)))"
proof -
  let ?tg = "js_get (config_tagsStyles config) (tagName n)"
  let ?cl = "\<lambda>c. js_get (config_classesStyles config) c"
  let ?T = "pushed ?tg"
  let ?C = "concat (map (\<lambda>c. pushed (?cl c)) (node_classNames n))"
  from assms(1) obtain collected where
    c: "push_custom_styles config n (push_builtin_styles config n, False) = Inr collected"
    by (auto simp: resolveStyle_def split: sum.splits)
  then obtain inl where inl: "inline_style n = Inr inl"
    by (auto simp: push_custom_styles_eq split: sum.splits)
  let ?I = "if inl \<noteq> [] then [StyleObject inl] else []"
  have cc: "custom_contributions config n = ?T @ ?C @ ?I"
    by (simp add: custom_contributions_def push_custom_styles_eq inl)
  have 2: "hasCustomStyles r \<longleftrightarrow> custom_contributions config n \<noteq> []"
    using assms(1) by (rule hasCustomStyles_pushed)
  have T: "?T = (case map_of (config_tagsStyles config) (tagName n) of
                   Some s \<Rightarrow> [StyleObject s] | None \<Rightarrow> [])"
    using assms(2) by (auto simp: pushed_def finds_inherited_def js_get_def split: option.splits)
  have C1: "pushed (?cl c) = (case map_of (config_classesStyles config) c of
                   Some s \<Rightarrow> [StyleObject s] | None \<Rightarrow> [])"
    if "c \<in> set (node_classNames n)" for c
    using assms(3) that
    by (auto simp: pushed_def finds_inherited_def js_get_def split: option.splits)
  have Cne: "?C \<noteq> [] \<longleftrightarrow>
      (\<exists>c \<in> set (node_classNames n). \<exists>s. map_of (config_classesStyles config) c = Some s)"
    using C1 by (auto split: option.splits)
  have 1: "hasCustomStyles r \<longleftrightarrow>
            (\<exists>s. map_of (config_tagsStyles config) (tagName n) = Some s)
            \<or> (\<exists>c \<in> set (node_classNames n). \<exists>s. map_of (config_classesStyles config) c = Some s)
            \<or> (\<exists>inl. inline_style n = Inr inl \<and> inl \<noteq> [])"
    unfolding 2 cc using Cne by (auto simp: T inl split: option.splits)
  have Tin: "\<exists>obj. s = StyleObject obj \<and> obj \<in> snd ` set (config_tagsStyles config)"
    if "s \<in> set ?T" for s
  proof -
    from that obtain obj where o: "s = StyleObject obj"
      "map_of (config_tagsStyles config) (tagName n) = Some obj"
      unfolding T by (auto split: option.splits)
    from o(2) have "(tagName n, obj) \<in> set (config_tagsStyles config)" by (rule map_of_SomeD)
    then have "obj \<in> snd ` set (config_tagsStyles config)" by force
    with o(1) show ?thesis by blast
  qed
  have Cin: "\<exists>obj. s = StyleObject obj \<and> obj \<in> snd ` set (config_classesStyles config)"
    if "s \<in> set ?C" for s
  proof -
    from that obtain c where c: "c \<in> set (node_classNames n)" "s \<in> set (pushed (?cl c))"
      by auto
    from c(2) obtain obj where o: "s = StyleObject obj"
      "map_of (config_classesStyles config) c = Some obj"
      unfolding C1[OF c(1)] by (auto split: option.splits)
    from o(2) have "(c, obj) \<in> set (config_classesStyles config)" by (rule map_of_SomeD)
    then have "obj \<in> snd ` set (config_classesStyles config)" by force
    with o(1) show ?thesis by blast
  qed
  have 3: "\<forall>s \<in> set (custom_contributions config n). \<exists>obj. s = StyleObject obj"
  proof
    fix s assume "s \<in> set (custom_contributions config n)"
    then consider "s \<in> set ?T" | "s \<in> set ?C" | "s \<in> set ?I"
      unfolding cc by auto
    then show "\<exists>obj. s = StyleObject obj"
    proof cases
      case 1 from Tin[OF this] show ?thesis by blast
    next
      case 2 from Cin[OF this] show ?thesis by blast
    next
      case 3 then show ?thesis by (auto split: if_splits)
    qed
  qed
  have 4: "hasCustomStyles r \<longleftrightarrow> list_ex (\<lambda>s. own_properties s \<noteq> []) (custom_contributions config n)"
    if ne: "\<forall>s \<in> snd ` set (config_tagsStyles config) \<union> snd ` set (config_classesStyles config). s \<noteq> []"
  proof -
    have all: "\<forall>s \<in> set (custom_contributions config n). own_properties s \<noteq> []"
    proof
      fix s assume "s \<in> set (custom_contributions config n)"
      then consider "s \<in> set ?T" | "s \<in> set ?C" | "s \<in> set ?I"
        unfolding cc by auto
      then show "own_properties s \<noteq> []"
      proof cases
        case 1
        from Tin[OF this] obtain obj where "s = StyleObject obj"
          "obj \<in> snd ` set (config_tagsStyles config)" by blast
        with ne show ?thesis by (auto simp: own_properties_def)
      next
        case 2
        from Cin[OF this] obtain obj where "s = StyleObject obj"
          "obj \<in> snd ` set (config_classesStyles config)" by blast
        with ne show ?thesis by (auto simp: own_properties_def)
      next
        case 3 then show ?thesis by (auto simp: own_properties_def split: if_splits)
      qed
    qed
    have "list_ex (\<lambda>s. own_properties s \<noteq> []) (custom_contributions config n)
        \<longleftrightarrow> custom_contributions config n \<noteq> []"
      using all by (cases "custom_contributions config n") (auto simp: list_ex_iff)
    with 2 show ?thesis by simp
  qed
  from 1 2 3 4 show ?thesis by blast
qed

theorem hasCustomStyles_iff_witness:
  "resolveStyle demo_style_config (demo_style_node ''mark'' [] None)
     = Inr \<lparr>style = [(''color'', StringValue ''red''), (''fontSize'', NumberValue (Finite 10)),
                     (''backgroundColor'', StringValue ''#ffeb3b'')],
            isTextElement = True, hasCustomStyles = True\<rparr>
   \<and> custom_contributions demo_style_config (demo_style_node ''mark'' [] None)
       = [StyleObject [(''color'', StringValue ''red'')]]
   \<and> resolveStyle (demo_style_config\<lparr>tagsStyles := None\<rparr>) (demo_style_node ''mark'' [] None)
     = Inr \<lparr>style = [(''color'', StringValue ''#1a1a1a''), (''fontSize'', NumberValue (Finite 10)),
                     (''backgroundColor'', StringValue ''#ffeb3b'')],
            isTextElement = True, hasCustomStyles = False\<rparr>
   \<and> custom_contributions (demo_style_config\<lparr>tagsStyles := None\<rparr>) (demo_style_node ''mark'' [] None)
       = []"
proof -
  let ?n = "demo_style_node ''mark'' [] None"
  let ?c2 = "demo_style_config\<lparr>tagsStyles := None\<rparr>"
  have ev: "resolveStyle demo_style_config ?n
     = Inr \<lparr>style = [(''color'', StringValue ''red''), (''fontSize'', NumberValue (Finite 10)),
                     (''backgroundColor'', StringValue ''#ffeb3b'')],
            isTextElement = True, hasCustomStyles = True\<rparr>"
    "resolveStyle ?c2 ?n
     = Inr \<lparr>style = [(''color'', StringValue ''#1a1a1a''), (''fontSize'', NumberValue (Finite 10)),
                     (''backgroundColor'', StringValue ''#ffeb3b'')],
            isTextElement = True, hasCustomStyles = False\<rparr>"
    by code_simp+
  have fi: "\<not> finds_inherited (config_tagsStyles demo_style_config) (tagName ?n)"
    "\<forall>c \<in> set (node_classNames ?n). \<not> finds_inherited (config_classesStyles demo_style_config) c"
    "\<not> finds_inherited (config_tagsStyles ?c2) (tagName ?n)"
    "\<forall>c \<in> set (node_classNames ?n). \<not> finds_inherited (config_classesStyles ?c2) c"
    by (simp_all add: finds_inherited_def js_get_def demo_style_config_def demo_style_node_def
          config_tagsStyles_def node_classNames_def Object_prototype_names_def)
  have tg: "map_of (config_tagsStyles demo_style_config) (tagName ?n)
      = Some [(''color'', StringValue ''red'')]"
    by (simp add: demo_style_config_def demo_style_node_def config_tagsStyles_def)
  have cc1: "custom_contributions demo_style_config ?n = [StyleObject [(''color'', StringValue ''red'')]]"
    by code_simp
  from hasCustomStyles_iff [OF ev(2) fi(3,4)]
  have "custom_contributions ?c2 ?n = []" by simp
  moreover from hasCustomStyles_iff [OF ev(1) fi(1,2)] tg
  have "custom_contributions demo_style_config ?n \<noteq> []" by simp
  ultimately show ?thesis using ev cc1 by simp
qed

text \<open>
  The claim as stated asks for a non-empty style object. With the empty object as the
  user's style for \<^verbatim>\<open>p\<close>, the test \<^verbatim>\<open>if (tagStyle)\<close> succeeds and the flag is set,
  though the only contribution of the custom tiers is that empty object. With an empty
  configuration and an element \<^verbatim>\<open>constructor\<close>, or a class of that name, the read of
  the empty table finds the inherited function \<^verbatim>\<open>Object\<close>: the flag is set and no
  style object was contributed at all.
\<close>

theorem hasCustomStyles_empty_tag_style:
  "resolveStyle empty_tag_style_config plain_paragraph
     = Inr \<lparr>style = [(''marginVertical'', NumberValue (Finite 12))], isTextElement = False,
            hasCustomStyles = True\<rparr>
   \<and> custom_contributions empty_tag_style_config plain_paragraph = [StyleObject []]
   \<and> resolveStyle empty_style_config (demo_style_node ''constructor'' [] None)
     = Inr \<lparr>style = [], isTextElement = False, hasCustomStyles = True\<rparr>
   \<and> custom_contributions empty_style_config (demo_style_node ''constructor'' [] None)
       = [InheritedMember ''constructor'']
   \<and> resolveStyle empty_style_config
       (demo_style_node ''p'' [(''class'', ''constructor'')] (Some [''constructor'']))
     = Inr \<lparr>style = [(''marginVertical'', NumberValue (Finite 12))], isTextElement = False,
            hasCustomStyles = True\<rparr>
   \<and> custom_contributions empty_style_config
       (demo_style_node ''p'' [(''class'', ''constructor'')] (Some [''constructor'']))
       = [InheritedMember ''constructor'']"
  by code_simp

section \<open>Parser (src/parser/parser.ts)\<close>

text \<open>
  \<^verbatim>\<open>Partial<ParserOptions>\<close>: every key may be absent, and a key that is present may
  hold \<^verbatim>\<open>undefined\<close>. \<^verbatim>\<open>{ ...DEFAULT_OPTIONS, ...options }\<close> takes a field from
  \<^verbatim>\<open>options\<close> when the key is present there, whatever its value. A test such as
  \<^verbatim>\<open>if (mergedOptions.normalizeWhitespace)\<close> succeeds for the value \<^verbatim>\<open>true\<close> only.
\<close>

record ParserOptions =
  decodeEntities :: "bool js_optional"
  normalizeWhitespace :: "bool js_optional"
  selfClosingTags :: "string list js_optional"
  rawTextTags :: "string list js_optional"

definition DEFAULT_OPTIONS :: ParserOptions where
  "DEFAULT_OPTIONS =
     \<lparr>decodeEntities = Present True, normalizeWhitespace = Present True,
      selfClosingTags = Present [''img'', ''br'', ''hr'', ''input'', ''meta'', ''link''],
      rawTextTags = Present [''script'', ''style'']\<rparr>"

definition no_options :: ParserOptions where
  "no_options =
     \<lparr>decodeEntities = Absent, normalizeWhitespace = Absent, selfClosingTags = Absent,
      rawTextTags = Absent\<rparr>"

definition spread_field :: "'a js_optional \<Rightarrow> 'a js_optional \<Rightarrow> 'a js_optional" where
  "spread_field d v = (case v of Absent \<Rightarrow> d | PresentUndefined \<Rightarrow> PresentUndefined | Present x \<Rightarrow> Present x)"

definition merge_options :: "ParserOptions \<Rightarrow> ParserOptions \<Rightarrow> ParserOptions" where
  "merge_options defaults options =
     \<lparr>decodeEntities = spread_field (decodeEntities defaults) (decodeEntities options),
      normalizeWhitespace = spread_field (normalizeWhitespace defaults) (normalizeWhitespace options),
      selfClosingTags = spread_field (selfClosingTags defaults) (selfClosingTags options),
      rawTextTags = spread_field (rawTextTags defaults) (rawTextTags options)\<rparr>"

text \<open>
  The state outside the parser's arguments: the module variable \<^verbatim>\<open>keyCounter\<close>, and the
  number of objects allocated so far, from which a new object takes its identity.
\<close>

record runtime_state =
  keyCounter :: nat
  allocated :: nat

text \<open>\<^verbatim>\<open>`html-node-${++keyCounter}`\<close>\<close>

definition generateKey :: "runtime_state \<Rightarrow> string \<times> runtime_state" where
  "generateKey st =
     (''html-node-'' @ decimal (Suc (keyCounter st)), st\<lparr>keyCounter := Suc (keyCounter st)\<rparr>)"

definition resetKeyCounter :: "runtime_state \<Rightarrow> runtime_state" where
  "resetKeyCounter st = st\<lparr>keyCounter := 0\<rparr>"

text \<open>The identity of a new object.\<close>

definition allocate :: "runtime_state \<Rightarrow> nat \<times> runtime_state" where
  "allocate st = (allocated st, st\<lparr>allocated := Suc (allocated st)\<rparr>)"

text \<open>\<^verbatim>\<open>text.replace(/\s+/g, ' ')\<close>\<close>

function collapse_spaces :: "string \<Rightarrow> string" where
  "collapse_spaces [] = []"
| "collapse_spaces (c # cs) =
     (if is_space c then CHR '' '' # collapse_spaces (dropWhile is_space cs)
      else c # collapse_spaces cs)"
  by pat_completeness auto
termination
  by (relation "measure length") (auto simp: less_Suc_eq_le length_dropWhile_le)

definition normalizeText :: "string \<Rightarrow> bool \<Rightarrow> string" where
  "normalizeText text preserveWhitespace =
     (if preserveWhitespace then text else collapse_spaces text)"

definition parseAttributes :: "string js_object \<Rightarrow> string js_object" where
  "parseAttributes attrs =
     fold (\<lambda>k result. case map_of attrs k of
                         Some v \<Rightarrow> AList.update (toLowerCase k) v result
                       | None \<Rightarrow> result)
       (js_keys attrs) []"

text \<open>
  The tree that \<^verbatim>\<open>htmlparser2\<close>'s \<^verbatim>\<open>DomHandler\<close> hands over. \<open>DomTag\<close> is a
  node of type \<^verbatim>\<open>tag\<close>, \<^verbatim>\<open>script\<close> or \<^verbatim>\<open>style\<close> with its name, attributes and
  children; \<open>DomOther\<close> is a node of any other type (a directive, a CDATA section).
\<close>

datatype DomNode =
    DomText string
  | DomTag string "string js_object" "DomNode list"
  | DomComment string
  | DomOther

text \<open>
  \<^verbatim>\<open>convertNode(node, parent, options)\<close>; \<open>None\<close> is \<^verbatim>\<open>null\<close>.
  \<open>convertChildren\<close> is the loop over \<^verbatim>\<open>node.children\<close> (and, with no parent, the loop
  over the roots in \<^verbatim>\<open>parseHtml\<close>): it returns the converted nodes that are not
  \<^verbatim>\<open>null\<close>, in order.
\<close>

fun convertNode ::
    "DomNode \<Rightarrow> nat option \<Rightarrow> ParserOptions \<Rightarrow> runtime_state
       \<Rightarrow> HtmlNode option \<times> runtime_state"
  and convertChildren ::
    "DomNode list \<Rightarrow> nat option \<Rightarrow> ParserOptions \<Rightarrow> runtime_state
       \<Rightarrow> HtmlNode list \<times> runtime_state" where
  "convertNode (DomText d) parentRef options st =
     (let normalize = (normalizeWhitespace options = Present True);
          text = (if normalize then normalizeText d False else d)
      in if isWhitespaceOnly text \<and> normalize then (None, st)
         else (case generateKey st of (k, st1) \<Rightarrow>
               case allocate st1 of (a, st2) \<Rightarrow> (Some (TextNode a k text parentRef), st2)))"
| "convertNode (DomTag nm attribs domChildren) parentRef options st =
     (let tag = toLowerCase nm in
      if tag = ''script'' \<or> tag = ''style'' then (None, st)
      else
        (case generateKey st of (k, st1) \<Rightarrow>
         case allocate st1 of (a, st2) \<Rightarrow>
           (let attrs = parseAttributes attribs;
                names =
                  (case map_of attrs ''class'' of
                     Some cls \<Rightarrow>
                       if cls \<noteq> [] then Some (filter (\<lambda>w. w \<noteq> []) (split_spaces cls))
                       else None
                   | None \<Rightarrow> None)
            in case convertChildren domChildren (Some a) options st2 of
                 (converted, st3) \<Rightarrow>
                   (Some (ElementNode a k tag attrs names converted parentRef None), st3))))"
| "convertNode (DomComment c) parentRef options st = (None, st)"
| "convertNode DomOther parentRef options st = (None, st)"
| "convertChildren [] parentRef options st = ([], st)"
| "convertChildren (child # rest) parentRef options st =
     (case convertNode child parentRef options st of
        (convertedChild, st1) \<Rightarrow>
          (case convertChildren rest parentRef options st1 of
             (others, st2) \<Rightarrow>
               ((case convertedChild of None \<Rightarrow> others | Some n \<Rightarrow> n # others), st2)))"

text \<open>\<^verbatim>\<open>prev.content += node.content\<close>\<close>

definition append_content :: "HtmlNode \<Rightarrow> string \<Rightarrow> HtmlNode" where
  "append_content prev suffix =
     (case prev of TextNode a k c p \<Rightarrow> TextNode a k (c @ suffix) p | _ \<Rightarrow> prev)"

text \<open>The second half of \<^verbatim>\<open>postProcess\<close>: trimming the text nodes at the two ends.\<close>

definition trim_first :: "HtmlNode list \<Rightarrow> HtmlNode list" where
  "trim_first result =
     (case result of
        [] \<Rightarrow> []
      | TextNode a k c p # rest \<Rightarrow>
          (if trimStart c = [] then rest else TextNode a k (trimStart c) p # rest)
      | _ # rest \<Rightarrow> result)"

definition trim_last :: "HtmlNode list \<Rightarrow> HtmlNode list" where
  "trim_last result =
     (if result = [] then []
      else (case last result of
              TextNode a k c p \<Rightarrow>
                (if trimEnd c = [] then butlast result
                 else butlast result @ [TextNode a k (trimEnd c) p])
            | _ \<Rightarrow> result))"

text \<open>
  \<^verbatim>\<open>postProcess(nodes)\<close>. \<open>postProcess_loop\<close> is the \<^verbatim>\<open>for\<close> loop with the array
  \<^verbatim>\<open>result\<close>. A node belongs to one array only, so the assignments to
  \<^verbatim>\<open>prev.content\<close> and \<^verbatim>\<open>node.children\<close> are modelled by rebuilding the node, with
  the same identity.
\<close>

fun postProcess :: "HtmlNode list \<Rightarrow> HtmlNode list"
  and postProcess_loop :: "HtmlNode list \<Rightarrow> HtmlNode list \<Rightarrow> HtmlNode list" where
  "postProcess ns = trim_last (trim_first (postProcess_loop ns []))"
| "postProcess_loop [] result = result"
| "postProcess_loop (TextNode a k c p # rest) result =
     (if result \<noteq> [] \<and> isTextNode (last result)
      then postProcess_loop rest (butlast result @ [append_content (last result) c])
      else postProcess_loop rest (result @ [TextNode a k c p]))"
| "postProcess_loop (ElementNode a k t attrs names ch p ps # rest) result =
     postProcess_loop rest (result @ [ElementNode a k t attrs names (postProcess ch) p ps])"
| "postProcess_loop (CommentNode a k c p # rest) result =
     postProcess_loop rest (result @ [CommentNode a k c p])"

text \<open>
  What \<^verbatim>\<open>htmlparser2\<close> does with the input during \<^verbatim>\<open>parser.write(html)\<close> and
  \<^verbatim>\<open>parser.end()\<close>, as far as \<^verbatim>\<open>parseHtml\<close> can see it: the calls of the
  \<^verbatim>\<open>DomHandler\<close> callback, each with an error or with a list of roots, and then possibly
  an exception that leaves the \<^verbatim>\<open>try\<close> block. The library is a parameter of the model:
  a function from the input and the option \<^verbatim>\<open>decodeEntities\<close> to such a run.
\<close>

datatype dom_callback = CallbackError string | CallbackDom "DomNode list"

record parser_run =
  callbacks :: "dom_callback list"
  thrown :: "js_thrown option"

type_synonym html_parser = "string \<Rightarrow> bool js_optional \<Rightarrow> parser_run"

record ParseError =
  message :: string

record ParseResult =
  nodes :: "HtmlNode list"
  errors :: "ParseError list"

text \<open>The body of the callback given to \<^verbatim>\<open>DomHandler\<close>, on the variables \<^verbatim>\<open>nodes\<close>
  and \<^verbatim>\<open>errors\<close> of \<^verbatim>\<open>parseHtml\<close>.\<close>

fun run_callbacks ::
  "dom_callback list \<Rightarrow> ParserOptions \<Rightarrow> ParseResult \<times> runtime_state
     \<Rightarrow> ParseResult \<times> runtime_state" where
  "run_callbacks [] options acc = acc"
| "run_callbacks (CallbackError msg # rest) options (r, st) =
     run_callbacks rest options (r\<lparr>errors := errors r @ [\<lparr>message = msg\<rparr>]\<rparr>, st)"
| "run_callbacks (CallbackDom roots # rest) options (r, st) =
     (case convertChildren roots None options st of
        (converted, st1) \<Rightarrow>
          run_callbacks rest options (r\<lparr>nodes := nodes r @ converted\<rparr>, st1))"

text \<open>The \<^verbatim>\<open>try\<close> block of \<^verbatim>\<open>parseHtml\<close>: \<open>Inl\<close> is the exception that leaves it,
  paired with the variables as they are at that moment.\<close>

definition try_block ::
  "parser_run \<Rightarrow> ParserOptions \<Rightarrow> runtime_state
     \<Rightarrow> (js_thrown + unit) \<times> ParseResult \<times> runtime_state" where
  "try_block run mergedOptions st =
     (case run_callbacks (callbacks run) mergedOptions (\<lparr>nodes = [], errors = []\<rparr>, st) of
        (r, st1) \<Rightarrow>
          (case thrown run of
             Some e \<Rightarrow> (Inl e, r, st1)
           | None \<Rightarrow>
               (Inr (),
                (if normalizeWhitespace mergedOptions = Present True
                 then r\<lparr>nodes := postProcess (nodes r)\<rparr> else r),
                st1)))"

text \<open>\<^verbatim>\<open>error instanceof Error ? error.message : 'Unknown parsing error'\<close>\<close>

definition catch_message :: "js_thrown \<Rightarrow> string" where
  "catch_message e = (case e of ThrownError msg \<Rightarrow> msg | ThrownOther \<Rightarrow> ''Unknown parsing error'')"

text \<open>
  \<^verbatim>\<open>parseHtml(html, options)\<close>. The outcome of a call is \<open>Inr\<close> of the value returned
  or \<open>Inl\<close> of the exception thrown.
\<close>

definition parseHtml ::
  "html_parser \<Rightarrow> string \<Rightarrow> ParserOptions \<Rightarrow> runtime_state
     \<Rightarrow> (js_thrown + ParseResult) \<times> runtime_state" where
  "parseHtml htmlparser2 html options st =
     (let mergedOptions = merge_options DEFAULT_OPTIONS options in
      case try_block (htmlparser2 html (decodeEntities mergedOptions)) mergedOptions st of
        (Inr u, r, st1) \<Rightarrow> (Inr r, st1)
      | (Inl e, r, st1) \<Rightarrow> (Inr (r\<lparr>errors := errors r @ [\<lparr>message = catch_message e\<rparr>]\<rparr>), st1))"

definition parseHtmlStrict ::
  "html_parser \<Rightarrow> string \<Rightarrow> runtime_state \<Rightarrow> (js_thrown + HtmlNode list) \<times> runtime_state" where
  "parseHtmlStrict htmlparser2 html st =
     (case parseHtml htmlparser2 html no_options st of
        (Inl e, st1) \<Rightarrow> (Inl e, st1)
      | (Inr r, st1) \<Rightarrow>
          if errors r \<noteq> []
          then (Inl (ThrownError
                  (''HTML parsing failed: '' @ join '', '' (map message (errors r)))), st1)
          else (Inr (nodes r), st1))"

section \<open>Resolving the styles of a tree (src/styles/styleResolver.ts)\<close>

text \<open>
  \<^verbatim>\<open>resolveTreeStyles(nodes, config)\<close>. \<^verbatim>\<open>processNode\<close> returns a node that is not
  an element as it is, the same object. For an element it builds a new object with the
  object spread \<^verbatim>\<open>{ ...node, parsedStyles: style, children: processedChildren }\<close>: every
  other field, \<^verbatim>\<open>parent\<close> among them, is copied from the old node. The children are
  processed before the new object is created. An exception of the resolver ends the walk.
\<close>

fun processNode ::
    "StyleResolverConfig \<Rightarrow> HtmlNode \<Rightarrow> runtime_state
       \<Rightarrow> (js_thrown + HtmlNode) \<times> runtime_state"
  and processNodes ::
    "StyleResolverConfig \<Rightarrow> HtmlNode list \<Rightarrow> runtime_state
       \<Rightarrow> (js_thrown + HtmlNode list) \<times> runtime_state" where
  "processNode config (ElementNode a k t attrs names ch p ps) st =
     (case resolveStyle config (ElementNode a k t attrs names ch p ps) of
        Inl e \<Rightarrow> (Inl e, st)
      | Inr resolved \<Rightarrow>
          (case processNodes config ch st of
             (Inl e, st1) \<Rightarrow> (Inl e, st1)
           | (Inr processedChildren, st1) \<Rightarrow>
               (case allocate st1 of
                  (b, st2) \<Rightarrow>
                    (Inr (ElementNode b k t attrs names processedChildren p
                            (Some (style resolved))), st2))))"
| "processNode config (TextNode a k c p) st = (Inr (TextNode a k c p), st)"
| "processNode config (CommentNode a k c p) st = (Inr (CommentNode a k c p), st)"
| "processNodes config [] st = (Inr [], st)"
| "processNodes config (n # ns) st =
     (case processNode config n st of
        (Inl e, st1) \<Rightarrow> (Inl e, st1)
      | (Inr n', st1) \<Rightarrow>
          (case processNodes config ns st1 of
             (Inl e, st2) \<Rightarrow> (Inl e, st2)
           | (Inr ns', st2) \<Rightarrow> (Inr (n' # ns'), st2)))"

definition resolveTreeStyles ::
  "HtmlNode list \<Rightarrow> StyleResolverConfig \<Rightarrow> runtime_state
     \<Rightarrow> (js_thrown + HtmlNode list) \<times> runtime_state" where
  "resolveTreeStyles ns config st = processNodes config ns st"

section \<open>Properties of the parsed tree\<close>

subsection \<open>Notions\<close>

text \<open>No two neighbours in a list of nodes are both text nodes.\<close>

fun no_adjacent_text :: "HtmlNode list \<Rightarrow> bool" where
  "no_adjacent_text [] = True"
| "no_adjacent_text [x] = True"
| "no_adjacent_text (x # y # rest) =
     (\<not> (isTextNode x \<and> isTextNode y) \<and> no_adjacent_text (y # rest))"

text \<open>A text node whose content is empty after trimming.\<close>

definition blank_text :: "HtmlNode \<Rightarrow> bool" where
  "blank_text n = (case n of TextNode a k c p \<Rightarrow> trim c = [] | _ \<Rightarrow> False)"

text \<open>Neither the first nor the last entry of a list of nodes is a blank text node.\<close>

definition ends_trimmed :: "HtmlNode list \<Rightarrow> bool" where
  "ends_trimmed ns \<longleftrightarrow> ns = [] \<or> (\<not> blank_text (hd ns) \<and> \<not> blank_text (last ns))"

definition children_ok :: "HtmlNode list \<Rightarrow> bool" where
  "children_ok ns \<longleftrightarrow> no_adjacent_text ns \<and> ends_trimmed ns"

text \<open>The children array of every element in a subtree is merged and trimmed.\<close>

fun tree_ok :: "HtmlNode \<Rightarrow> bool" where
  "tree_ok (ElementNode a k t attrs names ch p ps) = (children_ok ch \<and> list_all tree_ok ch)"
| "tree_ok (TextNode a k c p) = True"
| "tree_ok (CommentNode a k c p) = True"

text \<open>All nodes of a tree, and of a list of trees.\<close>

fun subtree_nodes :: "HtmlNode \<Rightarrow> HtmlNode list" where
  "subtree_nodes (ElementNode a k t attrs names ch p ps) =
     ElementNode a k t attrs names ch p ps # concat (map subtree_nodes ch)"
| "subtree_nodes (TextNode a k c p) = [TextNode a k c p]"
| "subtree_nodes (CommentNode a k c p) = [CommentNode a k c p]"

definition forest_nodes :: "HtmlNode list \<Rightarrow> HtmlNode list" where
  "forest_nodes ns = concat (map subtree_nodes ns)"

text \<open>
  The objects a reference can point to are given as a list; a reference finds the object
  with that identity. A node is consistent with its parent when it has no parent reference,
  or the reference finds an element whose \<^verbatim>\<open>children\<close> array holds the node itself
  (an object with the node's identity).
\<close>

definition lookup_object :: "HtmlNode list \<Rightarrow> nat \<Rightarrow> HtmlNode option" where
  "lookup_object objects a = find (\<lambda>n. oid n = a) objects"

definition parent_has_child :: "HtmlNode list \<Rightarrow> HtmlNode \<Rightarrow> bool" where
  "parent_has_child objects n =
     (case parent n of
        None \<Rightarrow> True
      | Some a \<Rightarrow>
          (case lookup_object objects a of
             Some (ElementNode b k t attrs names ch p ps) \<Rightarrow> oid n \<in> set (map oid ch)
           | _ \<Rightarrow> False))"

definition parent_consistent :: "HtmlNode list \<Rightarrow> HtmlNode list \<Rightarrow> bool" where
  "parent_consistent objects forest = list_all (parent_has_child objects) (forest_nodes forest)"

text \<open>
  A tree is linked under a parent reference when its root has that reference in
  \<^verbatim>\<open>parent\<close> and every other node has the identity of the element that holds it.
  \<open>oids\<close> lists the identities of all nodes of a list of trees.
\<close>

fun linked :: "nat option \<Rightarrow> HtmlNode \<Rightarrow> bool" where
  "linked pr (ElementNode a k t attrs names ch p ps) = (p = pr \<and> list_all (linked (Some a)) ch)"
| "linked pr (TextNode a k c p) = (p = pr)"
| "linked pr (CommentNode a k c p) = (p = pr)"

definition oids :: "HtmlNode list \<Rightarrow> nat list" where
  "oids ns = map oid (forest_nodes ns)"

text \<open>The error messages that the callback receives, in order; and a parser whose
  callback is never called with an error.\<close>

definition is_error_callback :: "dom_callback \<Rightarrow> bool" where
  "is_error_callback c = (case c of CallbackError msg \<Rightarrow> True | CallbackDom roots \<Rightarrow> False)"

definition callback_errors :: "dom_callback list \<Rightarrow> string list" where
  "callback_errors cbs =
     concat (map (\<lambda>c. case c of CallbackError msg \<Rightarrow> [msg] | CallbackDom roots \<Rightarrow> []) cbs)"

definition without_error_callbacks :: "html_parser \<Rightarrow> html_parser" where
  "without_error_callbacks htmlparser2 html d =
     (htmlparser2 html d)\<lparr>callbacks := filter (\<lambda>c. \<not> is_error_callback c) (callbacks (htmlparser2 html d))\<rparr>"

text \<open>
  Examples. The markup \<^verbatim>\<open><p>a<!--c-->b</p>\<close>, for which the handler delivers a
  paragraph with a text, a comment and a text; a run in which the handler delivers that
  paragraph and an exception then leaves the \<^verbatim>\<open>try\<close> block (the conversion of the
  second root of \<open>deeply_nested_markup\<close>, a hundred thousand nested elements, overflows
  the stack); a run that reports an error, delivers a text and then throws; the markup \<^verbatim>\<open><div><p>x</p></div>\<close> with the tree that
  \<^verbatim>\<open>parseHtml\<close> returns for it and the tree that \<^verbatim>\<open>resolveTreeStyles\<close> makes of
  that.
\<close>

definition fresh_state :: runtime_state where
  "fresh_state = \<lparr>keyCounter = 0, allocated = 0\<rparr>"

definition comment_between_texts :: html_parser where
  "comment_between_texts html d =
     \<lparr>callbacks = [CallbackDom [DomTag ''p'' [] [DomText ''a'', DomComment ''c'', DomText ''b'']]],
      thrown = None\<rparr>"

definition deeply_nested_markup :: string where
  "deeply_nested_markup = ''<p>a<!--c-->b</p>'' @ concat (replicate 100000 ''<div>'')"

definition overflowing_parser :: html_parser where
  "overflowing_parser html d =
     \<lparr>callbacks = [CallbackDom [DomTag ''p'' [] [DomText ''a'', DomComment ''c'', DomText ''b'']]],
      thrown = Some (ThrownError ''Maximum call stack size exceeded'')\<rparr>"

definition failing_parser :: html_parser where
  "failing_parser html d =
     \<lparr>callbacks = [CallbackError ''first'', CallbackDom [DomText ''x'']],
      thrown = Some (ThrownError ''boom'')\<rparr>"

definition nested_paragraph :: html_parser where
  "nested_paragraph html d =
     \<lparr>callbacks = [CallbackDom [DomTag ''div'' [] [DomTag ''p'' [] [DomText ''x'']]]],
      thrown = None\<rparr>"

definition parsed_tree :: "HtmlNode list" where
  "parsed_tree =
     [ElementNode 0 ''html-node-1'' ''div'' [] None
        [ElementNode 1 ''html-node-2'' ''p'' [] None
           [TextNode 2 ''html-node-3'' ''x'' (Some 1)] (Some 0) None]
        None None]"

definition resolved_tree :: "HtmlNode list" where
  "resolved_tree =
     [ElementNode 4 ''html-node-1'' ''div'' [] None
        [ElementNode 3 ''html-node-2'' ''p'' [] None
           [TextNode 2 ''html-node-3'' ''x'' (Some 1)] (Some 0)
           (Some [(''marginVertical'', NumberValue (Finite 12))])]
        None (Some [(''flexDirection'', StringValue ''column'')])]"

subsection \<open>Merged and trimmed text\<close>

lemma trimStart_Nil_iff: "trimStart s = [] \<longleftrightarrow> (\<forall>c \<in> set s. is_space c)"
  by (simp add: trimStart_def dropWhile_eq_Nil_conv)

lemma trimEnd_Nil_iff: "trimEnd s = [] \<longleftrightarrow> (\<forall>c \<in> set s. is_space c)"
  by (simp add: trimEnd_def dropWhile_eq_Nil_conv)

lemma set_trimStart: "set (trimStart s) \<subseteq> set s"
  by (simp add: trimStart_def set_dropWhileD subsetI)

lemma trimStart_nonspace: "trimStart s \<noteq> [] \<Longrightarrow> \<exists>c \<in> set (trimStart s). \<not> is_space c"
  unfolding trimStart_def by (metis hd_dropWhile hd_in_set)

lemma trimEnd_nonspace: "trimEnd s \<noteq> [] \<Longrightarrow> \<exists>c \<in> set (trimEnd s). \<not> is_space c"
proof -
  assume "trimEnd s \<noteq> []"
  then have ne: "dropWhile is_space (rev s) \<noteq> []" by (simp add: trimEnd_def)
  then have "\<not> is_space (hd (dropWhile is_space (rev s)))" by (rule hd_dropWhile)
  moreover have "hd (dropWhile is_space (rev s)) \<in> set (trimEnd s)"
    using ne by (simp add: trimEnd_def)
  ultimately show ?thesis by blast
qed

lemma trim_Nil_iff: "trim s = [] \<longleftrightarrow> (\<forall>c \<in> set s. is_space c)"
proof
  assume "trim s = []"
  then have "\<forall>c \<in> set (trimStart s). is_space c" by (simp add: trim_def trimEnd_Nil_iff)
  then have "trimStart s = []" using trimStart_nonspace by blast
  then show "\<forall>c \<in> set s. is_space c" by (simp add: trimStart_Nil_iff)
next
  assume "\<forall>c \<in> set s. is_space c"
  then have "trimStart s = []" by (simp add: trimStart_Nil_iff)
  then show "trim s = []" by (simp add: trim_def trimEnd_def)
qed

lemma not_blank_trimStart: "trimStart c \<noteq> [] \<Longrightarrow> \<not> blank_text (TextNode a k (trimStart c) p)"
  using trimStart_nonspace by (auto simp: blank_text_def trim_Nil_iff)

lemma not_blank_trimEnd: "trimEnd c \<noteq> [] \<Longrightarrow> \<not> blank_text (TextNode a k (trimEnd c) p)"
  using trimEnd_nonspace by (auto simp: blank_text_def trim_Nil_iff)

lemma blank_text_is_text: "blank_text n \<Longrightarrow> isTextNode n"
  by (cases n) (auto simp: blank_text_def isTextNode_def)

lemma no_adjacent_text_snoc:
  "no_adjacent_text (xs @ [x]) \<longleftrightarrow>
     no_adjacent_text xs \<and> (xs = [] \<or> \<not> (isTextNode (last xs) \<and> isTextNode x))"
  by (induction xs rule: no_adjacent_text.induct) auto

lemma no_adjacent_text_tl: "no_adjacent_text xs \<Longrightarrow> no_adjacent_text (tl xs)"
  by (induction xs rule: no_adjacent_text.induct) auto

lemma no_adjacent_text_butlast: "no_adjacent_text xs \<Longrightarrow> no_adjacent_text (butlast xs)"
  by (induction xs rule: no_adjacent_text.induct) (auto split: if_splits)

lemma no_adjacent_text_replace_last:
  "no_adjacent_text xs \<Longrightarrow> xs \<noteq> [] \<Longrightarrow> isTextNode y \<longrightarrow> isTextNode (last xs) \<Longrightarrow>
     no_adjacent_text (butlast xs @ [y])"
proof (induction xs rule: no_adjacent_text.induct)
  case 1
  then show ?case by simp
next
  case (2 x)
  then show ?case by simp
next
  case (3 x z rest)
  then show ?case by (cases rest) auto
qed

lemma no_adjacent_text_replace_hd:
  "no_adjacent_text (x # xs) \<Longrightarrow> isTextNode y \<longrightarrow> isTextNode x \<Longrightarrow> no_adjacent_text (y # xs)"
  by (cases xs) auto

lemma no_adjacent_text_second:
  "no_adjacent_text (x # y # rest) \<Longrightarrow> isTextNode x \<Longrightarrow> \<not> isTextNode y"
  by simp

lemma no_adjacent_text_before_last:
  "no_adjacent_text xs \<Longrightarrow> butlast xs \<noteq> [] \<Longrightarrow> isTextNode (last xs) \<Longrightarrow>
     \<not> isTextNode (last (butlast xs))"
proof (induction xs rule: no_adjacent_text.induct)
  case 1
  then show ?case by simp
next
  case (2 x)
  then show ?case by simp
next
  case (3 x y rest)
  then show ?case by (cases rest) (auto split: if_splits)
qed

lemma isTextNode_TextNode [simp]: "isTextNode (TextNode a k c p)"
  by (simp add: isTextNode_def)

lemma isTextNode_append_content [simp]: "isTextNode (append_content n c) = isTextNode n"
  by (cases n) (simp_all add: append_content_def isTextNode_def)

lemma tree_ok_text: "isTextNode n \<Longrightarrow> tree_ok n"
  by (cases n) (simp_all add: isTextNode_def)

lemma trim_first_props:
  assumes "no_adjacent_text r" "list_all tree_ok r"
  shows "no_adjacent_text (trim_first r)" "list_all tree_ok (trim_first r)"
    "trim_first r = [] \<or> \<not> blank_text (hd (trim_first r))"
proof -
  show "no_adjacent_text (trim_first r)"
  proof (cases r)
    case Nil
    then show ?thesis by (simp add: trim_first_def)
  next
    case (Cons x xs)
    with assms(1) have tl: "no_adjacent_text xs" using no_adjacent_text_tl[of r] by simp
    show ?thesis
    proof (cases x)
      case (TextNode a k c p)
      with Cons assms(1) tl no_adjacent_text_replace_hd[of x xs "TextNode a k (trimStart c) p"]
      show ?thesis by (simp add: trim_first_def)
    qed (use Cons assms(1) in \<open>simp_all add: trim_first_def\<close>)
  qed
  show "list_all tree_ok (trim_first r)"
    using assms(2) by (auto simp: trim_first_def split: list.splits HtmlNode.splits)
  show "trim_first r = [] \<or> \<not> blank_text (hd (trim_first r))"
  proof (cases r)
    case Nil
    then show ?thesis by (simp add: trim_first_def)
  next
    case (Cons x xs)
    show ?thesis
    proof (cases x)
      case (TextNode a k c p)
      show ?thesis
      proof (cases "trimStart c = []")
        case True
        with TextNode Cons have tf: "trim_first r = xs" by (simp add: trim_first_def)
        show ?thesis
        proof (cases xs)
          case Nil
          with tf show ?thesis by simp
        next
          case (Cons y ys)
          with assms(1) \<open>r = x # xs\<close> TextNode have "\<not> isTextNode y" by simp
          then have "\<not> blank_text y" using blank_text_is_text by blast
          with tf Cons show ?thesis by simp
        qed
      next
        case False
        with TextNode Cons not_blank_trimStart[OF False] show ?thesis
          by (simp add: trim_first_def)
      qed
    qed (use Cons in \<open>simp_all add: trim_first_def blank_text_def\<close>)
  qed
qed

lemma trim_last_props:
  assumes "no_adjacent_text r" "list_all tree_ok r" "r = [] \<or> \<not> blank_text (hd r)"
  shows "no_adjacent_text (trim_last r)" "list_all tree_ok (trim_last r)"
    "ends_trimmed (trim_last r)"
proof -
  show "no_adjacent_text (trim_last r)"
  proof (cases "r = []")
    case True
    then show ?thesis by (simp add: trim_last_def)
  next
    case False
    show ?thesis
    proof (cases "last r")
      case (TextNode a k c p)
      have "no_adjacent_text (butlast r @ [TextNode a k (trimEnd c) p])"
        using assms(1) False TextNode by (intro no_adjacent_text_replace_last) simp_all
      with TextNode False assms(1) show ?thesis
        by (simp add: trim_last_def no_adjacent_text_butlast)
    qed (use False assms(1) in \<open>simp_all add: trim_last_def\<close>)
  qed
  have bl: "list_all tree_ok (butlast r)"
    using assms(2) by (auto simp: list_all_iff dest: in_set_butlastD)
  show "list_all tree_ok (trim_last r)"
    using assms(2) bl by (auto simp: trim_last_def split: HtmlNode.splits)
  show "ends_trimmed (trim_last r)"
  proof (cases "r = []")
    case True
    then show ?thesis by (simp add: trim_last_def ends_trimmed_def)
  next
    case False
    with assms(3) have hd: "\<not> blank_text (hd r)" by simp
    show ?thesis
    proof (cases "last r")
      case (TextNode a k c p)
      show ?thesis
      proof (cases "trimEnd c = []")
        case True
        with TextNode False have tl: "trim_last r = butlast r" by (simp add: trim_last_def)
        show ?thesis
        proof (cases "butlast r = []")
          case True
          with tl show ?thesis by (simp add: ends_trimmed_def)
        next
          case bne: False
          have "\<not> isTextNode (last (butlast r))"
            using assms(1) bne TextNode by (intro no_adjacent_text_before_last) simp_all
          then have "\<not> blank_text (last (butlast r))" using blank_text_is_text by blast
          moreover have "hd (butlast r) = hd r" using bne by (cases r) (auto split: if_splits)
          ultimately show ?thesis using tl hd by (simp add: ends_trimmed_def)
        qed
      next
        case ne: False
        with TextNode False
        have tl: "trim_last r = butlast r @ [TextNode a k (trimEnd c) p]"
          by (simp add: trim_last_def)
        have last: "\<not> blank_text (last (trim_last r))"
          using not_blank_trimEnd[OF ne] tl by simp
        have "\<not> blank_text (hd (trim_last r))"
        proof (cases "butlast r = []")
          case True
          with tl not_blank_trimEnd[OF ne] show ?thesis by simp
        next
          case bne: False
          then have "hd (butlast r @ [TextNode a k (trimEnd c) p]) = hd r"
            by (cases r) (auto split: if_splits)
          with tl hd show ?thesis by simp
        qed
        with last show ?thesis by (simp add: ends_trimmed_def)
      qed
    next
      case (ElementNode a k t attrs names ch p ps)
      with False have tl: "trim_last r = r" by (simp add: trim_last_def)
      from ElementNode have "\<not> blank_text (last r)" by (simp add: blank_text_def)
      with tl hd False show ?thesis by (simp add: ends_trimmed_def)
    next
      case (CommentNode a k c p)
      with False have tl: "trim_last r = r" by (simp add: trim_last_def)
      from CommentNode have "\<not> blank_text (last r)" by (simp add: blank_text_def)
      with tl hd False show ?thesis by (simp add: ends_trimmed_def)
    qed
  qed
qed

lemma postProcess_ok_aux:
  "(children_ok (postProcess ns) \<and> list_all tree_ok (postProcess ns))"
  "(no_adjacent_text result \<longrightarrow> list_all tree_ok result \<longrightarrow>
      no_adjacent_text (postProcess_loop ns result)
      \<and> list_all tree_ok (postProcess_loop ns result))"
proof (induction ns and ns result rule: postProcess_postProcess_loop.induct)
  case (1 ns)
  then have loop: "no_adjacent_text (postProcess_loop ns [])"
    "list_all tree_ok (postProcess_loop ns [])" by simp_all
  note f = trim_first_props[OF loop]
  note l = trim_last_props[OF f]
  from l show ?case by (simp add: children_ok_def)
next
  case (2 result)
  then show ?case by simp
next
  case (3 a k c p rest result)
  show ?case
  proof (intro impI)
    assume na: "no_adjacent_text result" and ok: "list_all tree_ok result"
    show "no_adjacent_text (postProcess_loop (TextNode a k c p # rest) result)
      \<and> list_all tree_ok (postProcess_loop (TextNode a k c p # rest) result)"
    proof (cases "result \<noteq> [] \<and> isTextNode (last result)")
      case True
      have na': "no_adjacent_text (butlast result @ [append_content (last result) c])"
        using na True by (intro no_adjacent_text_replace_last) simp_all
      have "list_all tree_ok (butlast result)"
        using ok by (auto simp: list_all_iff dest: in_set_butlastD)
      moreover have "tree_ok (append_content (last result) c)"
        using True by (intro tree_ok_text) simp
      ultimately have ok': "list_all tree_ok (butlast result @ [append_content (last result) c])"
        by simp
      from 3(1)[OF True] na' ok' True show ?thesis by simp
    next
      case False
      have na': "no_adjacent_text (result @ [TextNode a k c p])"
        using na False by (auto simp: no_adjacent_text_snoc)
      have ok': "list_all tree_ok (result @ [TextNode a k c p])" using ok by simp
      from 3(2)[OF False] na' ok' False show ?thesis by auto
    qed
  qed
next
  case (4 a k t attrs names ch p ps rest result)
  show ?case
  proof (intro impI)
    assume na: "no_adjacent_text result" and ok: "list_all tree_ok result"
    let ?e = "ElementNode a k t attrs names (postProcess ch) p ps"
    have na': "no_adjacent_text (result @ [?e])"
      using na by (simp add: no_adjacent_text_snoc isTextNode_def)
    have ok': "list_all tree_ok (result @ [?e])" using ok 4(1) by simp
    from 4(2) na' ok'
    show "no_adjacent_text (postProcess_loop (ElementNode a k t attrs names ch p ps # rest) result)
      \<and> list_all tree_ok (postProcess_loop (ElementNode a k t attrs names ch p ps # rest) result)"
      by simp
  qed
next
  case (5 a k c p rest result)
  show ?case
  proof (intro impI)
    assume na: "no_adjacent_text result" and ok: "list_all tree_ok result"
    have na': "no_adjacent_text (result @ [CommentNode a k c p])"
      using na by (simp add: no_adjacent_text_snoc isTextNode_def)
    have ok': "list_all tree_ok (result @ [CommentNode a k c p])" using ok by simp
    from 5 na' ok'
    show "no_adjacent_text (postProcess_loop (CommentNode a k c p # rest) result)
      \<and> list_all tree_ok (postProcess_loop (CommentNode a k c p # rest) result)"
      by simp
  qed
qed

lemma tree_ok_subtree:
  "tree_ok n \<Longrightarrow> e \<in> set (subtree_nodes n) \<Longrightarrow> isElementNode e \<Longrightarrow> children_ok (children e)"
proof (induction n arbitrary: e rule: tree_ok.induct)
  case (1 a k t attrs names ch p ps)
  from 1(3) consider "e = ElementNode a k t attrs names ch p ps"
    | c where "c \<in> set ch" "e \<in> set (subtree_nodes c)"
    by auto
  then show ?case
  proof cases
    case 1
    with "1.prems"(1) show ?thesis by simp
  next
    case 2
    with "1.prems"(1) have "tree_ok c" by (simp add: list_all_iff)
    from "1.IH"[OF 2(1) this 2(2) "1.prems"(3)] show ?thesis .
  qed
qed (simp_all add: isElementNode_def)

lemma forest_ok:
  "list_all tree_ok ns \<Longrightarrow> e \<in> set (forest_nodes ns) \<Longrightarrow> isElementNode e
     \<Longrightarrow> children_ok (children e)"
  by (auto simp: forest_nodes_def list_all_iff intro: tree_ok_subtree)

lemma normalize_merged:
  "normalizeWhitespace (merge_options DEFAULT_OPTIONS options) = Present True
     \<longleftrightarrow> normalizeWhitespace options = Absent \<or> normalizeWhitespace options = Present True"
  by (cases "normalizeWhitespace options")
     (auto simp: merge_options_def DEFAULT_OPTIONS_def spread_field_def)

text \<open>
  Claim C3, amended. When the option \<^verbatim>\<open>normalizeWhitespace\<close> is absent or
  \<^verbatim>\<open>true\<close> and the parse does not end in the \<^verbatim>\<open>catch\<close> block, the list of roots and
  the \<^verbatim>\<open>children\<close> array of every element in the tree that \<^verbatim>\<open>parseHtml\<close> returns
  hold no two consecutive text nodes, and neither their first nor their last entry is a
  text node whose content is empty after trimming.
\<close>

theorem parseHtml_text_merged_and_trimmed:
  assumes "normalizeWhitespace options = Absent \<or> normalizeWhitespace options = Present True"
    and "thrown (htmlparser2 html (decodeEntities (merge_options DEFAULT_OPTIONS options))) = None"
    and "parseHtml htmlparser2 html options st = (Inr r, st')"
  shows "no_adjacent_text (nodes r) \<and> ends_trimmed (nodes r)
       \<and> (\<forall>e \<in> set (forest_nodes (nodes r)). isElementNode e \<longrightarrow>
            no_adjacent_text (children e) \<and> ends_trimmed (children e))"
proof -
  let ?m = "merge_options DEFAULT_OPTIONS options"
  let ?run = "htmlparser2 html (decodeEntities ?m)"
  obtain r0 st0 where rc: "run_callbacks (callbacks ?run) ?m (\<lparr>nodes = [], errors = []\<rparr>, st) = (r0, st0)"
    by (cases "run_callbacks (callbacks ?run) ?m (\<lparr>nodes = [], errors = []\<rparr>, st)") auto
  have nw: "normalizeWhitespace ?m = Present True" using assms(1) by (simp add: normalize_merged)
  have "r = r0\<lparr>nodes := postProcess (nodes r0)\<rparr>"
    using assms(2,3) rc nw by (simp add: parseHtml_def try_block_def Let_def)
  then have n: "nodes r = postProcess (nodes r0)" by simp
  from postProcess_ok_aux(1)[of "nodes r0"] n
  have ok: "children_ok (nodes r)" "list_all tree_ok (nodes r)" by simp_all
  from ok(1) forest_ok[OF ok(2)] show ?thesis by (auto simp: children_ok_def)
qed

theorem parseHtml_text_merged_and_trimmed_witness:
  "normalizeWhitespace no_options = Absent
   \<and> thrown (comment_between_texts ''<p>a<!--c-->b</p>''
        (decodeEntities (merge_options DEFAULT_OPTIONS no_options))) = None
   \<and> parseHtml comment_between_texts ''<p>a<!--c-->b</p>'' no_options fresh_state
       = (Inr \<lparr>nodes = [ElementNode 0 ''html-node-1'' ''p'' [] None
                          [TextNode 1 ''html-node-2'' ''ab'' (Some 0)] None None],
                errors = []\<rparr>,
          \<lparr>keyCounter = 3, allocated = 3\<rparr>)
   \<and> no_adjacent_text [TextNode 1 ''html-node-2'' ''ab'' (Some 0)]
   \<and> ends_trimmed [TextNode 1 ''html-node-2'' ''ab'' (Some 0)]"
proof -
  have a: "normalizeWhitespace no_options = Absent" by (simp add: no_options_def)
  then have a': "normalizeWhitespace no_options = Absent
      \<or> normalizeWhitespace no_options = Present True" by simp
  have b: "thrown (comment_between_texts ''<p>a<!--c-->b</p>''
        (decodeEntities (merge_options DEFAULT_OPTIONS no_options))) = None"
    by (simp add: comment_between_texts_def)
  have c: "parseHtml comment_between_texts ''<p>a<!--c-->b</p>'' no_options fresh_state
       = (Inr \<lparr>nodes = [ElementNode 0 ''html-node-1'' ''p'' [] None
                          [TextNode 1 ''html-node-2'' ''ab'' (Some 0)] None None],
                errors = []\<rparr>,
          \<lparr>keyCounter = 3, allocated = 3\<rparr>)"
    by code_simp
  from parseHtml_text_merged_and_trimmed [OF a' b c]
  have "\<forall>e \<in> set (forest_nodes [ElementNode 0 ''html-node-1'' ''p'' [] None
                          [TextNode 1 ''html-node-2'' ''ab'' (Some 0)] None None]).
          isElementNode e \<longrightarrow> no_adjacent_text (children e) \<and> ends_trimmed (children e)"
    by simp
  then have "no_adjacent_text [TextNode 1 ''html-node-2'' ''ab'' (Some 0)]
     \<and> ends_trimmed [TextNode 1 ''html-node-2'' ''ab'' (Some 0)]"
    by (simp add: forest_nodes_def isElementNode_def)
  with a b c show ?thesis by simp
qed

text \<open>
  The claim as stated covers every value of the options and every input. With
  \<^verbatim>\<open>normalizeWhitespace: false\<close> the post-processing is skipped, and the two texts
  around a comment stay two consecutive text nodes; the same happens with
  \<^verbatim>\<open>normalizeWhitespace: undefined\<close>, which the spread copies over the default. The
  post-processing is the last statement of the \<^verbatim>\<open>try\<close> block: when an exception
  leaves the block after the handler has delivered the paragraph (the conversion of a later,
  deeply nested root overflows the stack), the \<^verbatim>\<open>catch\<close> block records the message and
  the nodes are returned as they are, the two texts not merged.
\<close>

theorem parseHtml_adjacent_text_without_normalization:
  "fst (parseHtml comment_between_texts ''<p>a<!--c-->b</p>''
          (no_options\<lparr>normalizeWhitespace := Present False\<rparr>) fresh_state)
     = Inr \<lparr>nodes = [ElementNode 0 ''html-node-1'' ''p'' [] None
                       [TextNode 1 ''html-node-2'' ''a'' (Some 0),
                        TextNode 2 ''html-node-3'' ''b'' (Some 0)] None None],
            errors = []\<rparr>
   \<and> fst (parseHtml comment_between_texts ''<p>a<!--c-->b</p>''
          (no_options\<lparr>normalizeWhitespace := PresentUndefined\<rparr>) fresh_state)
     = Inr \<lparr>nodes = [ElementNode 0 ''html-node-1'' ''p'' [] None
                       [TextNode 1 ''html-node-2'' ''a'' (Some 0),
                        TextNode 2 ''html-node-3'' ''b'' (Some 0)] None None],
            errors = []\<rparr>
   \<and> normalizeWhitespace no_options = Absent
   \<and> thrown (overflowing_parser deeply_nested_markup (Present True))
       = Some (ThrownError ''Maximum call stack size exceeded'')
   \<and> fst (parseHtml overflowing_parser deeply_nested_markup no_options fresh_state)
     = Inr \<lparr>nodes = [ElementNode 0 ''html-node-1'' ''p'' [] None
                       [TextNode 1 ''html-node-2'' ''a'' (Some 0),
                        TextNode 2 ''html-node-3'' ''b'' (Some 0)] None None],
            errors = [\<lparr>message = ''Maximum call stack size exceeded''\<rparr>]\<rparr>
   \<and> \<not> no_adjacent_text [TextNode 1 ''html-node-2'' ''a'' (Some 0),
                          TextNode 2 ''html-node-3'' ''b'' (Some 0)]"
proof -
  have "fst (parseHtml overflowing_parser html no_options fresh_state)
     = Inr \<lparr>nodes = [ElementNode 0 ''html-node-1'' ''p'' [] None
                       [TextNode 1 ''html-node-2'' ''a'' (Some 0),
                        TextNode 2 ''html-node-3'' ''b'' (Some 0)] None None],
            errors = [\<lparr>message = ''Maximum call stack size exceeded''\<rparr>]\<rparr>" for html
    by code_simp
  moreover have "thrown (overflowing_parser html d)
       = Some (ThrownError ''Maximum call stack size exceeded'')" for html d
    by (simp add: overflowing_parser_def)
  moreover have "fst (parseHtml comment_between_texts ''<p>a<!--c-->b</p>''
          (no_options\<lparr>normalizeWhitespace := Present False\<rparr>) fresh_state)
     = Inr \<lparr>nodes = [ElementNode 0 ''html-node-1'' ''p'' [] None
                       [TextNode 1 ''html-node-2'' ''a'' (Some 0),
                        TextNode 2 ''html-node-3'' ''b'' (Some 0)] None None],
            errors = []\<rparr>
   \<and> fst (parseHtml comment_between_texts ''<p>a<!--c-->b</p>''
          (no_options\<lparr>normalizeWhitespace := PresentUndefined\<rparr>) fresh_state)
     = Inr \<lparr>nodes = [ElementNode 0 ''html-node-1'' ''p'' [] None
                       [TextNode 1 ''html-node-2'' ''a'' (Some 0),
                        TextNode 2 ''html-node-3'' ''b'' (Some 0)] None None],
            errors = []\<rparr>
   \<and> normalizeWhitespace no_options = Absent
   \<and> \<not> no_adjacent_text [TextNode 1 ''html-node-2'' ''a'' (Some 0),
                          TextNode 2 ''html-node-3'' ''b'' (Some 0)]"
    by code_simp
  ultimately show ?thesis by simp
qed

subsection \<open>Errors\<close>

lemma run_callbacks_errors:
  "map message (errors (fst (run_callbacks cbs options (r, st))))
     = map message (errors r) @ callback_errors cbs"
proof (induction cbs arbitrary: r st)
  case Nil
  then show ?case by (simp add: callback_errors_def)
next
  case (Cons c cbs)
  show ?case
  proof (cases c)
    case (CallbackError msg)
    with Cons[of "r\<lparr>errors := errors r @ [\<lparr>message = msg\<rparr>]\<rparr>" st] show ?thesis
      by (simp add: callback_errors_def)
  next
    case (CallbackDom roots)
    obtain converted st1 where cv: "convertChildren roots None options st = (converted, st1)"
      by (cases "convertChildren roots None options st") auto
    with CallbackDom Cons[of "r\<lparr>nodes := nodes r @ converted\<rparr>" st1] show ?thesis
      by (simp add: callback_errors_def)
  qed
qed

lemma run_callbacks_without_errors:
  "nodes (fst (run_callbacks (filter (\<lambda>c. \<not> is_error_callback c) cbs) options (r, st)))
     = nodes (fst (run_callbacks cbs options (r', st)))
   \<and> snd (run_callbacks (filter (\<lambda>c. \<not> is_error_callback c) cbs) options (r, st))
     = snd (run_callbacks cbs options (r', st))" if "nodes r = nodes r'"
  using that
proof (induction cbs arbitrary: r r' st)
  case Nil
  then show ?case by simp
next
  case (Cons c cbs)
  show ?case
  proof (cases c)
    case (CallbackError msg)
    with Cons.IH[of r "r'\<lparr>errors := errors r' @ [\<lparr>message = msg\<rparr>]\<rparr>" st] Cons.prems
    show ?thesis by (simp add: is_error_callback_def)
  next
    case (CallbackDom roots)
    obtain converted st1 where cv: "convertChildren roots None options st = (converted, st1)"
      by (cases "convertChildren roots None options st") auto
    with CallbackDom Cons.prems
      Cons.IH[of "r\<lparr>nodes := nodes r @ converted\<rparr>" "r'\<lparr>nodes := nodes r' @ converted\<rparr>" st1]
    show ?thesis by (simp add: is_error_callback_def)
  qed
qed

lemma parseHtml_returns: "\<exists>r. fst (parseHtml htmlparser2 html options st) = Inr r"
  by (auto simp: parseHtml_def Let_def try_block_def split: prod.splits option.splits sum.splits)

text \<open>
  Claim C4. \<^verbatim>\<open>parseHtml\<close> returns a record for every input, every option value and
  every behaviour of the tokenizer. Its error list holds the messages the callback
  received, in order, followed by the message of the exception caught, if any; the nodes
  are the ones it would return had the callback never been called with an error.
  \<^verbatim>\<open>parseHtmlStrict(html)\<close> runs \<^verbatim>\<open>parseHtml(html)\<close>; it throws exactly when the
  error list of that run is not empty, and returns the nodes of that run otherwise.
\<close>

theorem parseHtml_never_throws:
  "(\<exists>r. parseHtml htmlparser2 html options st = (Inr r, snd (parseHtml htmlparser2 html options st))
      \<and> map message (errors r)
          = callback_errors (callbacks (htmlparser2 html (decodeEntities (merge_options DEFAULT_OPTIONS options))))
            @ (case thrown (htmlparser2 html (decodeEntities (merge_options DEFAULT_OPTIONS options))) of
                 None \<Rightarrow> [] | Some e \<Rightarrow> [catch_message e])
      \<and> (\<exists>r'. fst (parseHtml (without_error_callbacks htmlparser2) html options st) = Inr r'
            \<and> nodes r' = nodes r))
   \<and> (\<exists>r. parseHtml htmlparser2 html no_options st = (Inr r, snd (parseHtmlStrict htmlparser2 html st))
      \<and> ((\<exists>e. fst (parseHtmlStrict htmlparser2 html st) = Inl e) \<longleftrightarrow> errors r \<noteq> [])
      \<and> (if errors r = [] then fst (parseHtmlStrict htmlparser2 html st) = Inr (nodes r)
          else fst (parseHtmlStrict htmlparser2 html st)
                 = Inl (ThrownError (''HTML parsing failed: '' @ join '', '' (map message (errors r))))))"
proof -
  let ?m = "merge_options DEFAULT_OPTIONS options"
  let ?run = "htmlparser2 html (decodeEntities ?m)"
  let ?run' = "without_error_callbacks htmlparser2 html (decodeEntities ?m)"
  let ?r0 = "\<lparr>nodes = [], errors = []\<rparr>"
  obtain r0 st0 where rc: "run_callbacks (callbacks ?run) ?m (?r0, st) = (r0, st0)"
    by (cases "run_callbacks (callbacks ?run) ?m (?r0, st)") auto
  obtain r1 st1 where rc': "run_callbacks (callbacks ?run') ?m (?r0, st) = (r1, st1)"
    by (cases "run_callbacks (callbacks ?run') ?m (?r0, st)") auto
  have er: "map message (errors r0) = callback_errors (callbacks ?run)"
    using run_callbacks_errors[of "callbacks ?run" ?m ?r0 st] rc by simp
  have "callbacks ?run' = filter (\<lambda>c. \<not> is_error_callback c) (callbacks ?run)"
    by (simp add: without_error_callbacks_def)
  with run_callbacks_without_errors[of ?r0 ?r0 "callbacks ?run" ?m st] rc rc'
  have same: "nodes r1 = nodes r0" by simp
  have th': "thrown ?run' = thrown ?run" by (simp add: without_error_callbacks_def)
  obtain r where r: "fst (parseHtml htmlparser2 html options st) = Inr r"
    using parseHtml_returns by blast
  have 1: "parseHtml htmlparser2 html options st = (Inr r, snd (parseHtml htmlparser2 html options st))"
    using r by (metis prod.collapse)
  have 2: "map message (errors r)
          = callback_errors (callbacks ?run) @ (case thrown ?run of None \<Rightarrow> [] | Some e \<Rightarrow> [catch_message e])"
    using r rc er by (auto simp: parseHtml_def Let_def try_block_def split: option.splits)
  have 3: "\<exists>r'. fst (parseHtml (without_error_callbacks htmlparser2) html options st) = Inr r'
            \<and> nodes r' = nodes r"
    using r rc rc' same th'
    by (auto simp: parseHtml_def Let_def try_block_def split: option.splits)
  obtain q where q: "fst (parseHtml htmlparser2 html no_options st) = Inr q"
    using parseHtml_returns by blast
  then have q': "parseHtml htmlparser2 html no_options st
      = (Inr q, snd (parseHtml htmlparser2 html no_options st))"
    by (metis prod.collapse)
  have 4: "parseHtml htmlparser2 html no_options st = (Inr q, snd (parseHtmlStrict htmlparser2 html st))"
    using q' by (cases "errors q = []") (auto simp: parseHtmlStrict_def split: prod.splits)
  have 5: "(\<exists>e. fst (parseHtmlStrict htmlparser2 html st) = Inl e) \<longleftrightarrow> errors q \<noteq> []"
    using q' by (cases "errors q = []") (auto simp: parseHtmlStrict_def split: prod.splits)
  have 6: "if errors q = [] then fst (parseHtmlStrict htmlparser2 html st) = Inr (nodes q)
          else fst (parseHtmlStrict htmlparser2 html st)
                 = Inl (ThrownError (''HTML parsing failed: '' @ join '', '' (map message (errors q))))"
    using q' by (cases "errors q = []") (auto simp: parseHtmlStrict_def split: prod.splits)
  from 1 2 3 4 5 6 show ?thesis by blast
qed

theorem parseHtml_never_throws_witness:
  "parseHtml failing_parser ''x'' no_options fresh_state
     = (Inr \<lparr>nodes = [TextNode 0 ''html-node-1'' ''x'' None],
              errors = [\<lparr>message = ''first''\<rparr>, \<lparr>message = ''boom''\<rparr>]\<rparr>,
        \<lparr>keyCounter = 1, allocated = 1\<rparr>)
   \<and> parseHtmlStrict failing_parser ''x'' fresh_state
     = (Inl (ThrownError ''HTML parsing failed: first, boom''), \<lparr>keyCounter = 1, allocated = 1\<rparr>)
   \<and> parseHtmlStrict comment_between_texts ''<p>a<!--c-->b</p>'' fresh_state
     = (Inr [ElementNode 0 ''html-node-1'' ''p'' [] None
               [TextNode 1 ''html-node-2'' ''ab'' (Some 0)] None None],
        \<lparr>keyCounter = 3, allocated = 3\<rparr>)"
proof -
  have ev: "parseHtml failing_parser ''x'' no_options fresh_state
     = (Inr \<lparr>nodes = [TextNode 0 ''html-node-1'' ''x'' None],
              errors = [\<lparr>message = ''first''\<rparr>, \<lparr>message = ''boom''\<rparr>]\<rparr>,
        \<lparr>keyCounter = 1, allocated = 1\<rparr>)
   \<and> parseHtmlStrict comment_between_texts ''<p>a<!--c-->b</p>'' fresh_state
     = (Inr [ElementNode 0 ''html-node-1'' ''p'' [] None
               [TextNode 1 ''html-node-2'' ''ab'' (Some 0)] None None],
        \<lparr>keyCounter = 3, allocated = 3\<rparr>)"
    by code_simp
  from parseHtml_never_throws [of failing_parser "''x''" no_options fresh_state] ev
  have "parseHtmlStrict failing_parser ''x'' fresh_state
     = (Inl (ThrownError ''HTML parsing failed: first, boom''), \<lparr>keyCounter = 1, allocated = 1\<rparr>)"
    by (auto simp: prod_eq_iff split: if_splits)
  with ev show ?thesis by simp
qed

subsection \<open>Parent references\<close>

lemma forest_nodes_simps [simp]:
  "forest_nodes [] = []"
  "forest_nodes (n # ns) = subtree_nodes n @ forest_nodes ns"
  "forest_nodes (xs @ ys) = forest_nodes xs @ forest_nodes ys"
  by (simp_all add: forest_nodes_def)

lemma oids_simps [simp]:
  "oids [] = []"
  "oids (xs @ ys) = oids xs @ oids ys"
  "oids (ElementNode a k t attrs names ch p ps # ns) = a # oids ch @ oids ns"
  "oids (TextNode a k c p # ns) = a # oids ns"
  "oids (CommentNode a k c p # ns) = a # oids ns"
  by (simp_all add: oids_def forest_nodes_def)

lemma distinct_mset_subset:
  assumes "mset ys \<subseteq># mset xs" "distinct xs"
  shows "distinct ys"
proof -
  have "count (mset ys) a = (if a \<in> set ys then 1 else 0)" for a
  proof -
    have "count (mset ys) a \<le> count (mset xs) a"
      using assms(1) by (rule mset_subset_eq_count)
    moreover have "count (mset xs) a \<le> 1"
      using assms(2) by (simp add: distinct_count_atmost_1)
    ultimately have le: "count (mset ys) a \<le> 1" by linarith
    show ?thesis
    proof (cases "a \<in> set ys")
      case True
      then have "0 < count (mset ys) a" by (rule count_mset_gt_0)
      with le have "count (mset ys) a = 1" by linarith
      with True show ?thesis by (simp only: if_True)
    next
      case False
      then show ?thesis by simp
    qed
  qed
  then show ?thesis by (simp add: distinct_count_atmost_1)
qed

lemma allocate_eq: "allocate st = (allocated st, st\<lparr>allocated := Suc (allocated st)\<rparr>)"
  by (simp add: allocate_def)

lemma allocated_generateKey [simp]: "allocated (snd (generateKey st)) = allocated st"
  by (simp add: generateKey_def)

lemma convert_linked:
  "(convertNode d pr options st = (r, st') \<longrightarrow>
      allocated st \<le> allocated st'
      \<and> (case r of None \<Rightarrow> True
          | Some n \<Rightarrow> linked pr n \<and> distinct (oids [n])
                     \<and> set (oids [n]) \<subseteq> {allocated st ..< allocated st'}))"
  "(convertChildren ds pr options st = (ns, st') \<longrightarrow>
      allocated st \<le> allocated st'
      \<and> list_all (linked pr) ns \<and> distinct (oids ns)
      \<and> set (oids ns) \<subseteq> {allocated st ..< allocated st'})"
proof (induction d pr options st and ds pr options st arbitrary: r st' and ns st'
    rule: convertNode_convertChildren.induct)
  case (1 d parentRef options st)
  show ?case
    by (auto simp: Let_def generateKey_def allocate_def split: if_splits)
next
  case (2 nm attribs domChildren parentRef options st)
  show ?case
  proof (intro impI)
    assume cv: "convertNode (DomTag nm attribs domChildren) parentRef options st = (r, st')"
    show "allocated st \<le> allocated st'
      \<and> (case r of None \<Rightarrow> True
          | Some n \<Rightarrow> linked parentRef n \<and> distinct (oids [n])
                     \<and> set (oids [n]) \<subseteq> {allocated st ..< allocated st'})"
    proof (cases "toLowerCase nm = ''script'' \<or> toLowerCase nm = ''style''")
      case True
      with cv show ?thesis by (auto simp: Let_def)
    next
      case False
      obtain k st1 where gk: "generateKey st = (k, st1)" by (cases "generateKey st") auto
      obtain a st2 where al: "allocate st1 = (a, st2)" by (cases "allocate st1") auto
      obtain converted st3 where cc: "convertChildren domChildren (Some a) options st2 = (converted, st3)"
        by (cases "convertChildren domChildren (Some a) options st2") auto
      have a: "a = allocated st" "allocated st2 = Suc (allocated st)"
        using gk al by (auto simp: generateKey_def allocate_def)
      from False have F: "\<not> (toLowerCase nm = ''script'' \<or> toLowerCase nm = ''style'')" .
      have ih: "allocated st2 \<le> allocated st3 \<and> list_all (linked (Some a)) converted
          \<and> distinct (oids converted) \<and> set (oids converted) \<subseteq> {allocated st2 ..< allocated st3}"
        using "2.IH"[OF refl F gk[symmetric] al[symmetric] refl refl, of converted st3] cc
        by simp
      from cv False gk al cc obtain names attrs where
        r: "r = Some (ElementNode a k (toLowerCase nm) attrs names converted parentRef None)"
        and st': "st' = st3"
        by (auto simp: Let_def)
      from ih a have "a \<notin> set (oids converted)" by auto
      with ih a r st' show ?thesis by auto
    qed
  qed
next
  case (3 c parentRef options st)
  show ?case by auto
next
  case (4 parentRef options st)
  show ?case by auto
next
  case (5 parentRef options st)
  show ?case by auto
next
  case (6 child rest parentRef options st)
  show ?case
  proof (intro impI)
    assume cv: "convertChildren (child # rest) parentRef options st = (ns, st')"
    obtain c st1 where c: "convertNode child parentRef options st = (c, st1)"
      by (cases "convertNode child parentRef options st") auto
    obtain others st2 where o: "convertChildren rest parentRef options st1 = (others, st2)"
      by (cases "convertChildren rest parentRef options st1") auto
    from "6.IH"(1)[of c st1] c
    have ih1: "allocated st \<le> allocated st1"
      "case c of None \<Rightarrow> True
          | Some n \<Rightarrow> linked parentRef n \<and> distinct (oids [n])
                     \<and> set (oids [n]) \<subseteq> {allocated st ..< allocated st1}"
      by simp_all
    from "6.IH"(2)[OF c[symmetric], of others st2] o
    have ih2: "allocated st1 \<le> allocated st2" "list_all (linked parentRef) others"
      "distinct (oids others)" "set (oids others) \<subseteq> {allocated st1 ..< allocated st2}"
      by simp_all
    from cv c o have ns: "ns = (case c of None \<Rightarrow> others | Some n \<Rightarrow> n # others)" "st' = st2"
      by simp_all
    show "allocated st \<le> allocated st'
      \<and> list_all (linked parentRef) ns \<and> distinct (oids ns)
      \<and> set (oids ns) \<subseteq> {allocated st ..< allocated st'}"
    proof (cases c)
      case None
      with ns ih1 ih2 show ?thesis by auto
    next
      case (Some n)
      with ih1 have n: "linked parentRef n" "distinct (oids [n])"
        "set (oids [n]) \<subseteq> {allocated st ..< allocated st1}" by simp_all
      have app: "oids (n # others) = oids [n] @ oids others"
        using oids_simps(2)[of "[n]" others] by simp
      have disj: "set (oids [n]) \<inter> set (oids others) = {}"
        using n(3) ih2(4) by fastforce
      have "set (oids [n]) \<subseteq> {allocated st ..< allocated st2}"
        using n(3) ih2(1) by fastforce
      moreover have "set (oids others) \<subseteq> {allocated st ..< allocated st2}"
        using ih2(4) ih1(1) by fastforce
      ultimately show ?thesis
        using Some ns n ih1 ih2 disj unfolding app[unfolded Some[symmetric]]
        by (simp add: app)
    qed
  qed
qed

lemma linked_append_content: "linked pr n \<Longrightarrow> linked pr (append_content n c)"
  by (cases n) (simp_all add: append_content_def)

lemma oid_append_content [simp]: "oid (append_content n c) = oid n"
  by (cases n) (simp_all add: append_content_def)

lemma oids_text_last:
  "result \<noteq> [] \<Longrightarrow> isTextNode (last result) \<Longrightarrow>
     oids (butlast result @ [append_content (last result) c]) = oids result"
proof -
  assume ne: "result \<noteq> []" and t: "isTextNode (last result)"
  from t obtain a k c' p where l: "last result = TextNode a k c' p"
    by (cases "last result") (auto simp: isTextNode_def)
  have "result = butlast result @ [TextNode a k c' p]" using ne l by (metis append_butlast_last_id)
  then have "oids result = oids (butlast result) @ [a]"
    by (metis oids_simps(1,2,4))
  moreover have "oids (butlast result @ [append_content (last result) c]) = oids (butlast result) @ [a]"
    by (simp add: l append_content_def)
  ultimately show ?thesis by simp
qed

lemma trim_first_linked: "list_all (linked pr) r \<Longrightarrow> list_all (linked pr) (trim_first r)"
  by (auto simp: trim_first_def split: list.splits HtmlNode.splits)

lemma trim_first_oids: "mset (oids (trim_first r)) \<subseteq># mset (oids r)"
  by (auto simp: trim_first_def split: list.splits HtmlNode.splits)

lemma trim_last_linked: "list_all (linked pr) r \<Longrightarrow> list_all (linked pr) (trim_last r)"
proof -
  assume a: "list_all (linked pr) r"
  then have "list_all (linked pr) (butlast r)"
    by (auto simp: list_all_iff dest: in_set_butlastD)
  moreover have "r \<noteq> [] \<Longrightarrow> linked pr (last r)" using a by (simp add: list_all_iff)
  ultimately show ?thesis using a
    by (auto simp: trim_last_def split: HtmlNode.splits)
qed

lemma trim_last_oids: "mset (oids (trim_last r)) \<subseteq># mset (oids r)"
proof (cases "r = []")
  case True
  then show ?thesis by (simp add: trim_last_def)
next
  case False
  then have r: "r = butlast r @ [last r]" by simp
  show ?thesis
  proof (cases "last r")
    case (TextNode a k c p)
    have "oids r = oids (butlast r) @ [a]"
      using r TextNode by (metis oids_simps(1,2,4))
    with False TextNode show ?thesis by (simp add: trim_last_def)
  qed (use False in \<open>simp_all add: trim_last_def\<close>)
qed

lemma postProcess_linked_oids:
  "(list_all (linked pr) ns \<longrightarrow> list_all (linked pr) (postProcess ns))
     \<and> mset (oids (postProcess ns)) \<subseteq># mset (oids ns)"
  "(list_all (linked pr) ns \<longrightarrow> list_all (linked pr) result \<longrightarrow>
      list_all (linked pr) (postProcess_loop ns result))
     \<and> mset (oids (postProcess_loop ns result)) \<subseteq># mset (oids result) + mset (oids ns)"
proof (induction ns and ns result arbitrary: pr and pr rule: postProcess_postProcess_loop.induct)
  case (1 ns)
  have l: "list_all (linked pr) ns \<longrightarrow> list_all (linked pr) (postProcess_loop ns [])"
    using 1[of pr] by simp
  have m: "mset (oids (postProcess_loop ns [])) \<subseteq># mset (oids ns)"
    using 1[of pr] by simp
  have "mset (oids (trim_last (trim_first (postProcess_loop ns [])))) \<subseteq># mset (oids ns)"
    using trim_last_oids trim_first_oids m by (meson subset_mset.order_trans)
  with l show ?case by (auto intro: trim_last_linked trim_first_linked)
next
  case (2 result)
  show ?case by simp
next
  case (3 a k c p rest result)
  show ?case
  proof (cases "result \<noteq> [] \<and> isTextNode (last result)")
    case True
    let ?r = "butlast result @ [append_content (last result) c]"
    have o: "oids ?r = oids result" by (rule oids_text_last) (use True in simp_all)
    have lr: "list_all (linked pr) result \<Longrightarrow> list_all (linked pr) ?r"
    proof -
      assume a: "list_all (linked pr) result"
      then have "list_all (linked pr) (butlast result)"
        by (auto simp: list_all_iff dest: in_set_butlastD)
      moreover have "linked pr (last result)" using a True by (simp add: list_all_iff)
      ultimately show ?thesis by (simp add: linked_append_content)
    qed
    from 3(1)[OF True, of pr]
    have ih_l: "list_all (linked pr) rest \<longrightarrow> list_all (linked pr) ?r \<longrightarrow>
        list_all (linked pr) (postProcess_loop rest ?r)"
      and ih_m: "mset (oids (postProcess_loop rest ?r)) \<subseteq># mset (oids ?r) + mset (oids rest)"
      by blast+
    have eq: "postProcess_loop (TextNode a k c p # rest) result = postProcess_loop rest ?r"
      using True by simp
    have "mset (oids ?r) + mset (oids rest)
        \<subseteq># mset (oids result) + mset (oids (TextNode a k c p # rest))"
      unfolding o by simp
    with ih_m have m: "mset (oids (postProcess_loop rest ?r))
        \<subseteq># mset (oids result) + mset (oids (TextNode a k c p # rest))"
      by (rule subset_mset.order_trans)
    have l: "list_all (linked pr) (TextNode a k c p # rest) \<longrightarrow> list_all (linked pr) result \<longrightarrow>
        list_all (linked pr) (postProcess_loop rest ?r)"
      using ih_l lr by simp
    show ?thesis unfolding eq using l m by blast
  next
    case False
    from 3(2)[OF False, of pr] False show ?thesis by auto
  qed
next
  case (4 a k t attrs names ch p ps rest result)
  let ?e = "ElementNode a k t attrs names (postProcess ch) p ps"
  have ch: "list_all (linked (Some a)) ch \<longrightarrow> list_all (linked (Some a)) (postProcess ch)"
    "mset (oids (postProcess ch)) \<subseteq># mset (oids ch)"
    using 4(1)[of "Some a"] by simp_all
  have l: "list_all (linked pr) (ElementNode a k t attrs names ch p ps # rest) \<longrightarrow>
      list_all (linked pr) result \<longrightarrow>
      list_all (linked pr) (postProcess_loop (ElementNode a k t attrs names ch p ps # rest) result)"
    using 4(2)[of pr] ch(1) by simp
  have "mset (oids (postProcess_loop rest (result @ [?e])))
      \<subseteq># mset (oids (result @ [?e])) + mset (oids rest)"
    using 4(2)[of pr] by simp
  also have "\<dots> \<subseteq># mset (oids result) + mset (oids (ElementNode a k t attrs names ch p ps # rest))"
    using ch(2) by (simp add: subset_mset.add_mono)
  finally show ?case using l by simp
next
  case (5 a k c p rest result)
  from 5[of pr] show ?case by simp
qed

lemma linked_subtree_parent:
  "linked pr t \<Longrightarrow> n \<in> set (subtree_nodes t) \<Longrightarrow>
     (n = t \<and> parent n = pr)
     \<or> (\<exists>e \<in> set (subtree_nodes t). isElementNode e \<and> n \<in> set (children e)
            \<and> parent n = Some (oid e))"
proof (induction pr t arbitrary: n rule: linked.induct)
  case (1 pr a k t attrs names ch p ps)
  let ?t = "ElementNode a k t attrs names ch p ps"
  from 1(3) consider "n = ?t" | c where "c \<in> set ch" "n \<in> set (subtree_nodes c)"
    by auto
  then show ?case
  proof cases
    case 1
    with "1.prems"(1) show ?thesis by simp
  next
    case 2
    with "1.prems"(1) have lc: "linked (Some a) c" by (simp add: list_all_iff)
    from "1.IH"[OF 2(1) lc 2(2)]
    show ?thesis
    proof
      assume "n = c \<and> parent n = Some a"
      with 2(1) have "isElementNode ?t \<and> n \<in> set (children ?t) \<and> parent n = Some (oid ?t)"
        by (auto simp: isElementNode_def)
      then show ?thesis by (intro disjI2 bexI[of _ ?t]) simp_all
    next
      assume "\<exists>e \<in> set (subtree_nodes c). isElementNode e \<and> n \<in> set (children e)
            \<and> parent n = Some (oid e)"
      then obtain e where e: "e \<in> set (subtree_nodes c)" "isElementNode e"
        "n \<in> set (children e)" "parent n = Some (oid e)" by blast
      from e(1) 2(1) have "e \<in> set (subtree_nodes ?t)" by auto
      with e show ?thesis by blast
    qed
  qed
qed simp_all

lemma find_distinct_oid:
  "distinct (map oid objs) \<Longrightarrow> e \<in> set objs \<Longrightarrow> find (\<lambda>n. oid n = oid e) objs = Some e"
proof (induction objs)
  case Nil
  then show ?case by simp
next
  case (Cons x objs)
  show ?case
  proof (cases "x = e")
    case True
    then show ?thesis by simp
  next
    case False
    with Cons.prems have e: "e \<in> set objs" by simp
    with Cons.prems(1) have "oid x \<noteq> oid e" by auto
    with Cons e show ?thesis by simp
  qed
qed

lemma linked_distinct_consistent:
  assumes "list_all (linked None) ns" "distinct (oids ns)"
  shows "parent_consistent (forest_nodes ns) ns"
proof -
  have "parent_has_child (forest_nodes ns) n" if n: "n \<in> set (forest_nodes ns)" for n
  proof -
    from n obtain t where t: "t \<in> set ns" "n \<in> set (subtree_nodes t)"
      by (auto simp: forest_nodes_def)
    with assms(1) have "linked None t" by (simp add: list_all_iff)
    from linked_subtree_parent[OF this t(2)]
    show ?thesis
    proof
      assume "n = t \<and> parent n = None"
      then show ?thesis by (auto simp: parent_has_child_def)
    next
      assume "\<exists>e \<in> set (subtree_nodes t). isElementNode e \<and> n \<in> set (children e)
            \<and> parent n = Some (oid e)"
      then obtain e where e: "e \<in> set (subtree_nodes t)" "isElementNode e"
        "n \<in> set (children e)" "parent n = Some (oid e)" by blast
      from e(1) t(1) have "e \<in> set (forest_nodes ns)" by (auto simp: forest_nodes_def)
      with assms(2) have "lookup_object (forest_nodes ns) (oid e) = Some e"
        unfolding lookup_object_def oids_def by (intro find_distinct_oid)
      moreover from e(2) obtain b k tg attrs names ch p ps where
        "e = ElementNode b k tg attrs names ch p ps"
        by (cases e) (auto simp: isElementNode_def)
      ultimately show ?thesis using e(3,4) by (auto simp: parent_has_child_def)
    qed
  qed
  then show ?thesis by (simp add: parent_consistent_def list_all_iff)
qed

lemma run_callbacks_linked:
  "list_all (linked None) (nodes r) \<Longrightarrow> distinct (oids (nodes r)) \<Longrightarrow>
   set (oids (nodes r)) \<subseteq> {..< allocated st} \<Longrightarrow>
   run_callbacks cbs options (r, st) = (r', st') \<Longrightarrow>
     list_all (linked None) (nodes r') \<and> distinct (oids (nodes r'))"
proof (induction cbs arbitrary: r st)
  case Nil
  then show ?case by simp
next
  case (Cons c cbs)
  show ?case
  proof (cases c)
    case (CallbackError msg)
    with Cons.prems Cons.IH[of "r\<lparr>errors := errors r @ [\<lparr>message = msg\<rparr>]\<rparr>" st]
    show ?thesis by simp
  next
    case (CallbackDom roots)
    obtain converted st1 where cv: "convertChildren roots None options st = (converted, st1)"
      by (cases "convertChildren roots None options st") auto
    from convert_linked(2)[of roots None options st converted st1] cv
    have c: "allocated st \<le> allocated st1" "list_all (linked None) converted"
      "distinct (oids converted)" "set (oids converted) \<subseteq> {allocated st ..< allocated st1}"
      by simp_all
    let ?r = "r\<lparr>nodes := nodes r @ converted\<rparr>"
    have 1: "list_all (linked None) (nodes ?r)" using Cons.prems(1) c(2) by simp
    have "set (oids (nodes r)) \<inter> set (oids converted) = {}"
      using Cons.prems(3) c(4) by fastforce
    then have 2: "distinct (oids (nodes ?r))" using Cons.prems(2) c(3) by simp
    have 3: "set (oids (nodes ?r)) \<subseteq> {..< allocated st1}"
      using Cons.prems(3) c(1,4) by fastforce
    from Cons.prems(4) CallbackDom cv
    have "run_callbacks cbs options (?r, st1) = (r', st')" by simp
    from Cons.IH[OF 1 2 3 this] show ?thesis .
  qed
qed

text \<open>The tree that \<^verbatim>\<open>parseHtml\<close> returns is consistent, for every run of the
  tokenizer and every option value.\<close>

lemma parseHtml_parent_consistent:
  assumes "parseHtml htmlparser2 html options st = (Inr r, st')"
  shows "parent_consistent (forest_nodes (nodes r)) (nodes r)"
proof -
  let ?m = "merge_options DEFAULT_OPTIONS options"
  let ?run = "htmlparser2 html (decodeEntities ?m)"
  let ?r0 = "\<lparr>nodes = [], errors = []\<rparr> :: ParseResult"
  obtain r0 st0 where rc: "run_callbacks (callbacks ?run) ?m (?r0, st) = (r0, st0)"
    by (cases "run_callbacks (callbacks ?run) ?m (?r0, st)") auto
  have inv: "list_all (linked None) (nodes r0)" "distinct (oids (nodes r0))"
    using run_callbacks_linked[OF _ _ _ rc] by simp_all
  have pp: "list_all (linked None) (postProcess (nodes r0))"
    "distinct (oids (postProcess (nodes r0)))"
    using postProcess_linked_oids(1)[of None "nodes r0"] inv distinct_mset_subset by blast+
  have "nodes r = nodes r0 \<or> nodes r = postProcess (nodes r0)"
    using assms rc by (auto simp: parseHtml_def Let_def try_block_def split: option.splits if_splits)
  then show ?thesis using inv pp linked_distinct_consistent by auto
qed

text \<open>
  Claim C2. In the tree that \<^verbatim>\<open>parseHtml\<close> returns for
  \<^verbatim>\<open><div><p>x</p></div>\<close> every node is consistent with its parent. In the tree that
  \<^verbatim>\<open>resolveTreeStyles\<close> returns for that tree, the copy of the paragraph still refers
  to the old \<^verbatim>\<open>div\<close> as its parent, and the \<^verbatim>\<open>children\<close> array of the old
  \<^verbatim>\<open>div\<close> holds the old paragraph, not the copy.
\<close>

theorem resolveTreeStyles_dangling_parent:
  "parseHtml nested_paragraph ''<div><p>x</p></div>'' no_options fresh_state
     = (Inr \<lparr>nodes = parsed_tree, errors = []\<rparr>, \<lparr>keyCounter = 3, allocated = 3\<rparr>)
   \<and> parent_consistent (forest_nodes parsed_tree) parsed_tree
   \<and> resolveTreeStyles parsed_tree empty_style_config \<lparr>keyCounter = 3, allocated = 3\<rparr>
     = (Inr resolved_tree, \<lparr>keyCounter = 3, allocated = 5\<rparr>)
   \<and> \<not> parent_consistent (forest_nodes parsed_tree @ forest_nodes resolved_tree) resolved_tree
   \<and> \<not> parent_has_child (forest_nodes parsed_tree @ forest_nodes resolved_tree)
         (ElementNode 3 ''html-node-2'' ''p'' [] None
           [TextNode 2 ''html-node-3'' ''x'' (Some 1)] (Some 0)
           (Some [(''marginVertical'', NumberValue (Finite 12))]))"
  by code_simp

end
